theory Spec2Isabelle
  imports Main "HOL-Library.Word"
begin

section \<open>Strings of the runtime\<close>

text \<open>
  A JavaScript string is a sequence of 16-bit code units. String literals of the script
  are ASCII; \<open>js\<close> turns an ASCII literal into its code units.
\<close>

type_synonym jchar = "16 word"
type_synonym jstr = "jchar list"

definition js :: "string \<Rightarrow> jstr" where
  "js s = map of_char s"

text \<open>
  \<open>String.prototype.trim\<close> removes WhiteSpace and LineTerminator code points from both
  ends: TAB, LF, VT, FF, CR, SP, NBSP, U+1680, U+2000..U+200A, U+2028, U+2029, U+202F,
  U+205F, U+3000 and U+FEFF.
\<close>

definition is_white :: "jchar \<Rightarrow> bool" where
  "is_white c \<longleftrightarrow>
     c \<in> set [0x09, 0x0A, 0x0B, 0x0C, 0x0D, 0x20, 0xA0, 0x1680, 0x2028, 0x2029,
              0x202F, 0x205F, 0x3000, 0xFEFF]
     \<or> (0x2000 \<le> c \<and> c \<le> 0x200A)"

definition trim :: "jstr \<Rightarrow> jstr" where
  "trim s = rev (dropWhile is_white (rev (dropWhile is_white s)))"

text \<open>\<open>allText.split("\n")\<close>: the pieces between line feeds; the empty string gives one
  empty piece.\<close>

fun split_newline :: "jstr \<Rightarrow> jstr list" where
  "split_newline [] = [[]]"
| "split_newline (c # cs) =
     (if c = 0x0A then [] # split_newline cs
      else (case split_newline cs of
              [] \<Rightarrow> [[c]]
            | l # ls \<Rightarrow> (c # l) # ls))"

text \<open>\<open>allText.split("\n").map(l => l.trim()).filter(Boolean)\<close>: a string is truthy
  when it is not empty.\<close>

definition lines_of :: "jstr \<Rightarrow> jstr list" where
  "lines_of allText = filter (\<lambda>l. l \<noteq> []) (map trim (split_newline allText))"

definition selectRowCount :: "jstr list \<Rightarrow> nat" where
  "selectRowCount lines = length (filter (\<lambda>l. l = js ''Select Row'') lines)"

section \<open>Row parser\<close>

datatype error =
    SyntaxError
  | TypeError
  | ReadError
  | LaunchError
  | NavigationError
  | TimeoutError
  | EvaluateError
  | WriteError

text \<open>\<open>xs[k]\<close> is \<open>undefined\<close> (here \<open>None\<close>) when \<open>k\<close> is not an index of \<open>xs\<close>.\<close>

definition at :: "'a list \<Rightarrow> nat \<Rightarrow> 'a option" where
  "at xs k = (if k < length xs then Some (xs ! k) else None)"

text \<open>\<open>xs.slice(a, b)\<close> for \<open>0 \<le> a \<le> b\<close>.\<close>

definition slice :: "'a list \<Rightarrow> nat \<Rightarrow> nat \<Rightarrow> 'a list" where
  "slice xs a b = take (b - a) (drop a xs)"

definition is_digit :: "jchar \<Rightarrow> bool" where
  "is_digit c \<longleftrightarrow> 0x30 \<le> c \<and> c \<le> 0x39"

text \<open>The character class \<open>[^\d-]\<close>: \<open>\d\<close> is \<open>[0-9]\<close>, \<open>-\<close> is U+002D.\<close>

definition not_digit_or_minus :: "jchar \<Rightarrow> bool" where
  "not_digit_or_minus c \<longleftrightarrow> \<not> (is_digit c \<or> c = 0x2D)"

text \<open>\<open>s.replace(/C/g, rep)\<close> for a one-character class \<open>C\<close>: every match, from left to
  right, is replaced.\<close>

fun replace_all :: "(jchar \<Rightarrow> bool) \<Rightarrow> jstr \<Rightarrow> jstr \<Rightarrow> jstr" where
  "replace_all cls rep [] = []"
| "replace_all cls rep (c # cs) =
     (if cls c then rep @ replace_all cls rep cs else c # replace_all cls rep cs)"

text \<open>\<open>v.replace(/[^\d-]/g, "")\<close>: calling a method on \<open>undefined\<close> throws a TypeError.\<close>

definition strip_field :: "jstr option \<Rightarrow> error + jstr" where
  "strip_field v =
     (case v of
        None \<Rightarrow> Inl TypeError
      | Some s \<Rightarrow> Inr (replace_all not_digit_or_minus [] s))"

record row =
  sheepweekindex :: "jstr option"
  total_head_inc_reoffers :: jstr
  clearance_rate_mm :: jstr
  amount_over_reserve :: jstr
  arli_ckg_dw :: jstr
  arl_change_sheepindex :: jstr
  total_head_change_sheepindex :: jstr
  clearance_rate_change_sheepindex :: jstr
  vor_change_sheepindex :: jstr

definition and_then :: "error + 'a \<Rightarrow> ('a \<Rightarrow> error + 'b) \<Rightarrow> error + 'b" where
  "and_then r f = (case r of Inl e \<Rightarrow> Inl e | Inr v \<Rightarrow> f v)"

text \<open>The object literal of lines 114 to 124: the property values are evaluated in
  order, and the first one that throws ends the evaluation.\<close>

definition make_row :: "jstr list \<Rightarrow> error + row" where
  "make_row block =
     and_then (strip_field (at block 2)) (\<lambda>f2.
     and_then (strip_field (at block 3)) (\<lambda>f3.
     and_then (strip_field (at block 4)) (\<lambda>f4.
     and_then (strip_field (at block 5)) (\<lambda>f5.
     and_then (strip_field (at block 6)) (\<lambda>f6.
     and_then (strip_field (at block 7)) (\<lambda>f7.
     and_then (strip_field (at block 8)) (\<lambda>f8.
     and_then (strip_field (at block 9)) (\<lambda>f9.
       Inr \<lparr> sheepweekindex = at block 1,
             total_head_inc_reoffers = f2,
             clearance_rate_mm = f3,
             amount_over_reserve = f4,
             arli_ckg_dw = f5,
             arl_change_sheepindex = f6,
             total_head_change_sheepindex = f7,
             clearance_rate_change_sheepindex = f8,
             vor_change_sheepindex = f9 \<rparr>))))))))"

text \<open>The loop of lines 106 to 128, with the loop index and the array of rows built so
  far as arguments.\<close>

function rows_loop :: "jstr list \<Rightarrow> nat \<Rightarrow> row list \<Rightarrow> error + row list" where
  "rows_loop lines i rows =
     (if i < length lines then
        (if lines ! i = js ''Select Row'' then
           (case make_row (slice lines i (i + 11)) of
              Inl e \<Rightarrow> Inl e
            | Inr r \<Rightarrow> rows_loop lines (i + 1) (rows @ [r]))
         else rows_loop lines (i + 1) rows)
      else Inr rows)"
  by pat_completeness auto
termination
  by (relation "measure (\<lambda>(lines, i, rows). length lines - i)") auto

definition parse_rows :: "jstr list \<Rightarrow> error + row list" where
  "parse_rows lines = rows_loop lines 0 []"

section \<open>Metrics object\<close>

record metrics =
  updated_at :: jstr
  this_week :: "row option"
  last_week :: "row option"
  two_weeks_ago :: "row option"
  three_weeks_ago :: "row option"

text \<open>\<open>rows[k] || null\<close>: a row object is truthy, \<open>undefined\<close> gives \<open>null\<close>
  (here \<open>None\<close>).\<close>

definition build_metrics :: "jstr \<Rightarrow> row list \<Rightarrow> metrics" where
  "build_metrics now rows =
     \<lparr> updated_at = now,
       this_week = at rows 0,
       last_week = at rows 1,
       two_weeks_ago = at rows 2,
       three_weeks_ago = at rows 3 \<rparr>"

section \<open>JSON.stringify\<close>

text \<open>
  The values \<open>JSON.parse\<close> returns and \<open>JSON.stringify\<close> prints. A number is kept as
  the text \<open>JSON.stringify\<close> prints for it; turning a number literal into that text goes
  through a double, so it is a parameter (\<open>nt\<close>) of the parser and of the run. The
  members of an object are listed in the order in which the runtime enumerates them.
\<close>

datatype json =
    JNull
  | JBool bool
  | JNum jstr
  | JStr jstr
  | JArr "json list"
  | JObj "(jstr \<times> json) list"

text \<open>
  QuoteJSONString: the short escapes, \<open>\uXXXX\<close> (lower-case hexadecimal) for the other
  control characters and for a surrogate that is not half of a pair, every other code
  point as it is. U+005C is the backslash, U+0022 the double quote.
\<close>

definition hex_digit :: "nat \<Rightarrow> jchar" where
  "hex_digit d = (if d < 10 then of_nat (48 + d) else of_nat (87 + d))"

definition unicode_escape :: "jchar \<Rightarrow> jstr" where
  "unicode_escape c =
     [0x5C, 0x75,
      hex_digit (unat c div 4096), hex_digit (unat c div 256 mod 16),
      hex_digit (unat c div 16 mod 16), hex_digit (unat c mod 16)]"

definition is_high_surrogate :: "jchar \<Rightarrow> bool" where
  "is_high_surrogate c \<longleftrightarrow> 0xD800 \<le> c \<and> c \<le> 0xDBFF"

definition is_low_surrogate :: "jchar \<Rightarrow> bool" where
  "is_low_surrogate c \<longleftrightarrow> 0xDC00 \<le> c \<and> c \<le> 0xDFFF"

definition quote_unit :: "jchar \<Rightarrow> jstr" where
  "quote_unit c =
     (if c = 0x08 then [0x5C, 0x62]
      else if c = 0x09 then [0x5C, 0x74]
      else if c = 0x0A then [0x5C, 0x6E]
      else if c = 0x0C then [0x5C, 0x66]
      else if c = 0x0D then [0x5C, 0x72]
      else if c = 0x22 then [0x5C, 0x22]
      else if c = 0x5C then [0x5C, 0x5C]
      else if c < 0x20 \<or> is_high_surrogate c \<or> is_low_surrogate c then unicode_escape c
      else [c])"

fun quote_body :: "jstr \<Rightarrow> jstr" where
  "quote_body [] = []"
| "quote_body [c] = quote_unit c"
| "quote_body (c # d # cs) =
     (if is_high_surrogate c \<and> is_low_surrogate d then c # d # quote_body cs
      else quote_unit c @ quote_body (d # cs))"

definition quote :: "jstr \<Rightarrow> jstr" where
  "quote s = [0x22] @ quote_body s @ [0x22]"

text \<open>\<open>Array.prototype.join\<close>.\<close>

fun join :: "'a list \<Rightarrow> 'a list list \<Rightarrow> 'a list" where
  "join sep [] = []"
| "join sep [x] = x"
| "join sep (x # y # ys) = x @ sep @ join sep (y # ys)"

text \<open>\<open>JSON.stringify(v)\<close>.\<close>

fun stringify :: "json \<Rightarrow> jstr" where
  "stringify JNull = js ''null''"
| "stringify (JBool b) = (if b then js ''true'' else js ''false'')"
| "stringify (JNum t) = t"
| "stringify (JStr s) = quote s"
| "stringify (JArr vs) = js ''['' @ join (js '','') (map stringify vs) @ js '']''"
| "stringify (JObj ms) =
     js ''{'' @ join (js '','') (map (\<lambda>(k, v). quote k @ js '':'' @ stringify v) ms) @ js ''}''"

text \<open>\<open>JSON.stringify(v, null, 2)\<close>; \<open>n\<close> is the nesting depth.\<close>

definition indent :: "nat \<Rightarrow> jstr" where
  "indent n = replicate (2 * n) 0x20"

fun stringify_indented :: "nat \<Rightarrow> json \<Rightarrow> jstr" where
  "stringify_indented n JNull = js ''null''"
| "stringify_indented n (JBool b) = (if b then js ''true'' else js ''false'')"
| "stringify_indented n (JNum t) = t"
| "stringify_indented n (JStr s) = quote s"
| "stringify_indented n (JArr vs) =
     (if vs = [] then js ''[]''
      else js ''['' @ [0x0A] @ indent (n + 1)
           @ join (js '','' @ [0x0A] @ indent (n + 1)) (map (stringify_indented (n + 1)) vs)
           @ [0x0A] @ indent n @ js '']'')"
| "stringify_indented n (JObj ms) =
     (if ms = [] then js ''{}''
      else js ''{'' @ [0x0A] @ indent (n + 1)
           @ join (js '','' @ [0x0A] @ indent (n + 1))
               (map (\<lambda>(k, v). quote k @ js '': '' @ stringify_indented (n + 1) v) ms)
           @ [0x0A] @ indent n @ js ''}'')"

definition stringify_pretty :: "json \<Rightarrow> jstr" where
  "stringify_pretty v = stringify_indented 0 v"

section \<open>JSON.parse\<close>

text \<open>
  The lexical grammar of JSON: strings with their escapes, numbers
  \<open>-?(0|[1-9][0-9]*)(.[0-9]+)?([eE][+-]?[0-9]+)?\<close>, the three literal names, the six
  structural characters, and the white space TAB, LF, CR and SP between tokens.
\<close>

definition hex_value :: "jchar \<Rightarrow> nat option" where
  "hex_value c =
     (if 0x30 \<le> c \<and> c \<le> 0x39 then Some (unat c - 48)
      else if 0x41 \<le> c \<and> c \<le> 0x46 then Some (unat c - 55)
      else if 0x61 \<le> c \<and> c \<le> 0x66 then Some (unat c - 87)
      else None)"

definition hex4_value :: "jchar \<Rightarrow> jchar \<Rightarrow> jchar \<Rightarrow> jchar \<Rightarrow> jchar option" where
  "hex4_value a b c d =
     (case (hex_value a, hex_value b, hex_value c, hex_value d) of
        (Some x3, Some x2, Some x1, Some x0) \<Rightarrow> Some (of_nat (x3 * 4096 + x2 * 256 + x1 * 16 + x0))
      | _ \<Rightarrow> None)"

definition unescape :: "jchar \<Rightarrow> jchar option" where
  "unescape e =
     (if e = 0x22 then Some 0x22
      else if e = 0x5C then Some 0x5C
      else if e = 0x2F then Some 0x2F
      else if e = 0x62 then Some 0x08
      else if e = 0x66 then Some 0x0C
      else if e = 0x6E then Some 0x0A
      else if e = 0x72 then Some 0x0D
      else if e = 0x74 then Some 0x09
      else None)"

definition cons_fst :: "'a \<Rightarrow> ('a list \<times> 'b) option \<Rightarrow> ('a list \<times> 'b) option" where
  "cons_fst c r = (case r of None \<Rightarrow> None | Some (s, rest) \<Rightarrow> Some (c # s, rest))"

text \<open>\<open>lex_string\<close> reads a string after its opening quote and returns its value and the
  text after the closing quote.\<close>

fun lex_string :: "jstr \<Rightarrow> (jstr \<times> jstr) option" where
  "lex_string [] = None"
| "lex_string (c # cs) =
     (if c = 0x22 then Some ([], cs)
      else if c = 0x5C then
        (case cs of
           [] \<Rightarrow> None
         | e # es \<Rightarrow>
             if e = 0x75 then
               (case es of
                  h1 # h2 # h3 # h4 # rest \<Rightarrow>
                    (case hex4_value h1 h2 h3 h4 of
                       None \<Rightarrow> None
                     | Some w \<Rightarrow> cons_fst w (lex_string rest))
                | _ \<Rightarrow> None)
             else
               (case unescape e of
                  None \<Rightarrow> None
                | Some w \<Rightarrow> cons_fst w (lex_string es)))
      else if c < 0x20 then None
      else cons_fst c (lex_string cs))"

definition lex_digits :: "jstr \<Rightarrow> (jstr \<times> jstr) option" where
  "lex_digits s =
     (if takeWhile is_digit s = [] then None
      else Some (takeWhile is_digit s, dropWhile is_digit s))"

definition lex_exponent :: "jstr \<Rightarrow> (jstr \<times> jstr) option" where
  "lex_exponent s =
     (case s of
        [] \<Rightarrow> Some ([], s)
      | e # s1 \<Rightarrow>
          if e = 0x45 \<or> e = 0x65 then
            (case s1 of
               [] \<Rightarrow> None
             | g # s2 \<Rightarrow>
                 if g = 0x2B \<or> g = 0x2D then
                   (case lex_digits s2 of
                      None \<Rightarrow> None
                    | Some (ds, rest) \<Rightarrow> Some (e # g # ds, rest))
                 else
                   (case lex_digits s1 of
                      None \<Rightarrow> None
                    | Some (ds, rest) \<Rightarrow> Some (e # ds, rest)))
          else Some ([], s))"

definition lex_fraction :: "jstr \<Rightarrow> (jstr \<times> jstr) option" where
  "lex_fraction s =
     (case s of
        [] \<Rightarrow> Some ([], s)
      | p # s1 \<Rightarrow>
          if p = 0x2E then
            (case lex_digits s1 of
               None \<Rightarrow> None
             | Some (ds, rest) \<Rightarrow> Some (p # ds, rest))
          else Some ([], s))"

definition lex_integer :: "jstr \<Rightarrow> (jstr \<times> jstr) option" where
  "lex_integer s =
     (case s of
        [] \<Rightarrow> None
      | d # s1 \<Rightarrow>
          if d = 0x30 then Some ([d], s1)
          else lex_digits s)"

definition lex_number :: "jstr \<Rightarrow> (jstr \<times> jstr) option" where
  "lex_number s =
     (let (sign, s0) = (case s of
                          [] \<Rightarrow> ([], s)
                        | m # s' \<Rightarrow> if m = 0x2D then ([m], s') else ([], s))
      in case lex_integer s0 of
           None \<Rightarrow> None
         | Some (ip, s1) \<Rightarrow>
             (case lex_fraction s1 of
                None \<Rightarrow> None
              | Some (fp, s2) \<Rightarrow>
                  (case lex_exponent s2 of
                     None \<Rightarrow> None
                   | Some (ep, s3) \<Rightarrow> Some (sign @ ip @ fp @ ep, s3))))"

datatype token =
    TLBrace | TRBrace | TLBracket | TRBracket | TColon | TComma
  | TString jstr | TNumber jstr | TTrue | TFalse | TNull

definition strip_prefix :: "'a list \<Rightarrow> 'a list \<Rightarrow> 'a list option" where
  "strip_prefix p s = (if take (length p) s = p then Some (drop (length p) s) else None)"

definition is_json_space :: "jchar \<Rightarrow> bool" where
  "is_json_space c \<longleftrightarrow> c = 0x09 \<or> c = 0x0A \<or> c = 0x0D \<or> c = 0x20"

definition cons_tok :: "token \<Rightarrow> token list option \<Rightarrow> token list option" where
  "cons_tok t r = (case r of None \<Rightarrow> None | Some ts \<Rightarrow> Some (t # ts))"

function lex :: "jstr \<Rightarrow> token list option" where
  "lex [] = Some []"
| "lex (c # cs) =
     (if is_json_space c then lex cs
      else if c = 0x7B then cons_tok TLBrace (lex cs)
      else if c = 0x7D then cons_tok TRBrace (lex cs)
      else if c = 0x5B then cons_tok TLBracket (lex cs)
      else if c = 0x5D then cons_tok TRBracket (lex cs)
      else if c = 0x3A then cons_tok TColon (lex cs)
      else if c = 0x2C then cons_tok TComma (lex cs)
      else if c = 0x22 then
        (case lex_string cs of
           None \<Rightarrow> None
         | Some (s, rest) \<Rightarrow> cons_tok (TString s) (lex rest))
      else if c = 0x2D \<or> is_digit c then
        (case lex_number (c # cs) of
           None \<Rightarrow> None
         | Some (n, rest) \<Rightarrow> cons_tok (TNumber n) (lex rest))
      else if c = 0x74 then
        (case strip_prefix (js ''rue'') cs of
           None \<Rightarrow> None
         | Some rest \<Rightarrow> cons_tok TTrue (lex rest))
      else if c = 0x66 then
        (case strip_prefix (js ''alse'') cs of
           None \<Rightarrow> None
         | Some rest \<Rightarrow> cons_tok TFalse (lex rest))
      else if c = 0x6E then
        (case strip_prefix (js ''ull'') cs of
           None \<Rightarrow> None
         | Some rest \<Rightarrow> cons_tok TNull (lex rest))
      else None)"
  by pat_completeness auto
termination
proof -
  have str: "length rest \<le> length cs" if "lex_string cs = Some (s, rest)" for cs s rest
    using that
  proof (induction cs arbitrary: s rest rule: lex_string.induct)
    case 1
    then show ?case by simp
  next
    case (2 c cs)
    then show ?case
      by (fastforce simp: cons_fst_def split: if_splits list.splits option.splits)
  qed
  have digs: "length rest \<le> length s" if "lex_digits s = Some (ds, rest)" for s ds rest
    using that by (auto simp: lex_digits_def length_dropWhile_le split: if_splits)
  have expo: "length rest \<le> length s" if "lex_exponent s = Some (ep, rest)" for s ep rest
    using that
    by (auto simp: lex_exponent_def split: list.splits if_splits option.splits dest!: digs)
  have frac: "length rest \<le> length s" if "lex_fraction s = Some (fp, rest)" for s fp rest
    using that
    by (auto simp: lex_fraction_def split: list.splits if_splits option.splits dest!: digs)
  have intg: "length rest < length s" if "lex_integer s = Some (ip, rest)" for s ip rest
  proof (cases s)
    case Nil
    with that show ?thesis by (simp add: lex_integer_def)
  next
    case (Cons d s1)
    show ?thesis
    proof (cases "d = 0x30")
      case True
      with that Cons show ?thesis by (auto simp: lex_integer_def)
    next
      case False
      with that Cons have "is_digit d" and "rest = dropWhile is_digit s1"
        by (auto simp: lex_integer_def lex_digits_def split: if_splits)
      then show ?thesis
        using Cons length_dropWhile_le [of is_digit s1] by simp
    qed
  qed
  have num: "length rest < length s" if "lex_number s = Some (n, rest)" for s n rest
    using that
    by (fastforce simp: lex_number_def Let_def
          split: list.splits if_splits option.splits prod.splits
          dest!: intg frac expo)
  show ?thesis
    by (relation "measure length")
       (auto simp: strip_prefix_def dest!: str num split: if_splits)
qed

text \<open>
  An object built by \<open>JSON.parse\<close>: defining a key that is already there replaces its
  value in place; the runtime enumerates array-index keys (canonical decimal numerals below
  \<open>2^32 - 1\<close>) first, in ascending order, then the other keys in the order of their
  creation.
\<close>

definition decimal_value :: "jstr \<Rightarrow> int" where
  "decimal_value k = foldl (\<lambda>n c. 10 * n + (uint c - 48)) 0 k"

definition array_index :: "jstr \<Rightarrow> int option" where
  "array_index k =
     (if k \<noteq> [] \<and> list_all is_digit k \<and> (k = [0x30] \<or> hd k \<noteq> 0x30)
         \<and> decimal_value k < 2 ^ 32 - 1
      then Some (decimal_value k) else None)"

fun insert_index :: "int \<Rightarrow> jstr \<Rightarrow> 'v \<Rightarrow> (jstr \<times> 'v) list \<Rightarrow> (jstr \<times> 'v) list" where
  "insert_index n k v [] = [(k, v)]"
| "insert_index n k v ((k', v') # ms) =
     (case array_index k' of
        None \<Rightarrow> (k, v) # (k', v') # ms
      | Some n' \<Rightarrow> if n < n' then (k, v) # (k', v') # ms
                   else (k', v') # insert_index n k v ms)"

fun replace_value :: "jstr \<Rightarrow> 'v \<Rightarrow> (jstr \<times> 'v) list \<Rightarrow> (jstr \<times> 'v) list" where
  "replace_value k v [] = []"
| "replace_value k v ((k', v') # ms) =
     (if k' = k then (k, v) # ms else (k', v') # replace_value k v ms)"

definition define_property :: "(jstr \<times> 'v) list \<Rightarrow> jstr \<Rightarrow> 'v \<Rightarrow> (jstr \<times> 'v) list" where
  "define_property ms k v =
     (if k \<in> fst ` set ms then replace_value k v ms
      else (case array_index k of
              None \<Rightarrow> ms @ [(k, v)]
            | Some n \<Rightarrow> insert_index n k v ms))"

text \<open>
  The syntactic grammar of JSON as a pushdown automaton over the tokens: the stack holds
  the arrays and objects that are still open.
\<close>

datatype frame =
    FArr "json list"
  | FObj "(jstr \<times> json) list"
  | FKey "(jstr \<times> json) list" jstr

datatype mode =
    Value
  | ValueOrEnd
  | KeyOrEnd
  | Key
  | Colon
  | After
  | Done json

type_synonym pstate = "frame list \<times> mode"

fun deliver :: "json \<Rightarrow> frame list \<Rightarrow> pstate option" where
  "deliver v [] = Some ([], Done v)"
| "deliver v (FArr vs # st) = Some (FArr (vs @ [v]) # st, After)"
| "deliver v (FKey ms k # st) = Some (FObj (define_property ms k v) # st, After)"
| "deliver v (FObj ms # st) = None"

fun close_array :: "frame list \<Rightarrow> pstate option" where
  "close_array (FArr vs # st) = deliver (JArr vs) st"
| "close_array _ = None"

fun close_object :: "frame list \<Rightarrow> pstate option" where
  "close_object (FObj ms # st) = deliver (JObj ms) st"
| "close_object _ = None"

fun value_token :: "(jstr \<Rightarrow> jstr) \<Rightarrow> frame list \<Rightarrow> token \<Rightarrow> pstate option" where
  "value_token nt st (TString s) = deliver (JStr s) st"
| "value_token nt st (TNumber n) = deliver (JNum (nt n)) st"
| "value_token nt st TTrue = deliver (JBool True) st"
| "value_token nt st TFalse = deliver (JBool False) st"
| "value_token nt st TNull = deliver JNull st"
| "value_token nt st TLBracket = Some (FArr [] # st, ValueOrEnd)"
| "value_token nt st TLBrace = Some (FObj [] # st, KeyOrEnd)"
| "value_token nt st _ = None"

fun key_token :: "frame list \<Rightarrow> token \<Rightarrow> pstate option" where
  "key_token (FObj ms # st) (TString k) = Some (FKey ms k # st, Colon)"
| "key_token _ _ = None"

fun after_token :: "frame list \<Rightarrow> token \<Rightarrow> pstate option" where
  "after_token (FArr vs # st) TComma = Some (FArr vs # st, Value)"
| "after_token (FObj ms # st) TComma = Some (FObj ms # st, Key)"
| "after_token st TRBracket = close_array st"
| "after_token st TRBrace = close_object st"
| "after_token _ _ = None"

fun step :: "(jstr \<Rightarrow> jstr) \<Rightarrow> pstate \<Rightarrow> token \<Rightarrow> pstate option" where
  "step nt (st, Value) t = value_token nt st t"
| "step nt (st, ValueOrEnd) t = (if t = TRBracket then close_array st else value_token nt st t)"
| "step nt (st, KeyOrEnd) t = (if t = TRBrace then close_object st else key_token st t)"
| "step nt (st, Key) t = key_token st t"
| "step nt (st, Colon) t = (if t = TColon then Some (st, Value) else None)"
| "step nt (st, After) t = after_token st t"
| "step nt (st, Done v) t = None"

fun run_tokens :: "(jstr \<Rightarrow> jstr) \<Rightarrow> pstate \<Rightarrow> token list \<Rightarrow> pstate option" where
  "run_tokens nt s [] = Some s"
| "run_tokens nt s (t # ts) =
     (case step nt s t of None \<Rightarrow> None | Some s' \<Rightarrow> run_tokens nt s' ts)"

definition json_parse :: "(jstr \<Rightarrow> jstr) \<Rightarrow> jstr \<Rightarrow> json option" where
  "json_parse nt text =
     (case lex text of
        None \<Rightarrow> None
      | Some ts \<Rightarrow>
          (case run_tokens nt ([], Value) ts of
             Some ([], Done v) \<Rightarrow> Some v
           | _ \<Rightarrow> None))"

text \<open>ToBoolean on the values \<open>JSON.parse\<close> returns; the number zero prints as \<open>0\<close>.\<close>

definition truthy :: "json \<Rightarrow> bool" where
  "truthy v =
     (case v of
        JNull \<Rightarrow> False
      | JBool b \<Rightarrow> b
      | JNum t \<Rightarrow> t \<noteq> js ''0''
      | JStr s \<Rightarrow> s \<noteq> []
      | JArr vs \<Rightarrow> True
      | JObj ms \<Rightarrow> True)"

section \<open>The metrics object as a JSON value\<close>

text \<open>The own properties in the order of the object literal; \<open>JSON.stringify\<close> leaves out
  a property whose value is \<open>undefined\<close>.\<close>

definition row_json :: "row \<Rightarrow> json" where
  "row_json r =
     JObj ((case sheepweekindex r of
              None \<Rightarrow> []
            | Some s \<Rightarrow> [(js ''sheepweekindex'', JStr s)])
           @ [(js ''total_head_inc_reoffers'', JStr (total_head_inc_reoffers r)),
              (js ''clearance_rate_mm'', JStr (clearance_rate_mm r)),
              (js ''amount_over_reserve'', JStr (amount_over_reserve r)),
              (js ''arli_ckg_dw'', JStr (arli_ckg_dw r)),
              (js ''arl_change_sheepindex'', JStr (arl_change_sheepindex r)),
              (js ''total_head_change_sheepindex'', JStr (total_head_change_sheepindex r)),
              (js ''clearance_rate_change_sheepindex'',
                 JStr (clearance_rate_change_sheepindex r)),
              (js ''vor_change_sheepindex'', JStr (vor_change_sheepindex r))])"

definition slot_json :: "row option \<Rightarrow> json" where
  "slot_json s = (case s of None \<Rightarrow> JNull | Some r \<Rightarrow> row_json r)"

definition metrics_json :: "metrics \<Rightarrow> json" where
  "metrics_json m =
     JObj [(js ''updated_at'', JStr (updated_at m)),
           (js ''this_week'', slot_json (this_week m)),
           (js ''last_week'', slot_json (last_week m)),
           (js ''two_weeks_ago'', slot_json (two_weeks_ago m)),
           (js ''three_weeks_ago'', slot_json (three_weeks_ago m))]"

section \<open>The run\<close>

text \<open>
  What the script gets from outside: the output file as \<open>readFileSync(_, "utf8")\<close> would
  return it, whether each call into the browser succeeds, the text of the frame's body, the
  clock, and whether the write succeeds. \<open>frameHandle\<close> and \<open>contentFrame\<close> say that
  \<open>page.$\<close> and \<open>contentFrame()\<close> give an object and not \<open>null\<close>; \<open>innerText\<close> is
  what \<open>frame.evaluate\<close> resolves to, if it does. \<open>browser.close()\<close> and
  \<open>console\<close> are taken not to fail.
\<close>

datatype file_state = Absent | Unreadable | Content jstr

record env =
  number_text :: "jstr \<Rightarrow> jstr"
  outputFile :: file_state
  launch_ok :: bool
  new_page_ok :: bool
  goto_ok :: bool
  selector_found :: bool
  frameHandle :: bool
  contentFrame :: bool
  innerText :: "jstr option"
  now :: jstr
  write_ok :: bool

text \<open>
  How the async function ends: it returns (\<open>Completed\<close>), it calls \<open>process.exit\<close>, or
  its promise is rejected by an exception that nothing catches.
\<close>

datatype status = Completed | Exited nat | Rejected error

text \<open>What the script prints with \<open>console.error\<close>: the report of lines 137 to 142
  that no rows were found, and the warning of lines 149 and 150 with the number of rows
  found.\<close>

datatype notice = NoRowsFound | UnexpectedRowCount nat

text \<open>
  What a run did: \<open>acquired\<close> says that \<open>puppeteer.launch\<close> gave a browser,
  \<open>closed\<close> that the script called \<open>browser.close()\<close>, \<open>written\<close> is the text
  passed to \<open>writeFileSync\<close>, if any.
\<close>

record outcome =
  acquired :: bool
  closed :: bool
  console_error :: "notice list"
  written :: "jstr option"
  status :: status

text \<open>The exit code of the process; after an unhandled rejection it is the runtime's
  choice.\<close>

definition exit_code :: "status \<Rightarrow> nat option" where
  "exit_code s =
     (case s of
        Completed \<Rightarrow> Some 0
      | Exited n \<Rightarrow> Some n
      | Rejected e \<Rightarrow> None)"

text \<open>Lines 20 to 28.\<close>

definition load_previous :: "(jstr \<Rightarrow> jstr) \<Rightarrow> file_state \<Rightarrow> error + json" where
  "load_previous nt f =
     (case f of
        Absent \<Rightarrow> Inr JNull
      | Unreadable \<Rightarrow> Inl ReadError
      | Content text \<Rightarrow>
          (case json_parse nt text of
             None \<Rightarrow> Inl SyntaxError
           | Some v \<Rightarrow> Inr v))"

definition abort :: "bool \<Rightarrow> error \<Rightarrow> outcome" where
  "abort acq err =
     \<lparr> acquired = acq, closed = False, console_error = [], written = None,
       status = Rejected err \<rparr>"

text \<open>Lines 148 to 151.\<close>

definition row_count_warning :: "row list \<Rightarrow> notice list" where
  "row_count_warning rows =
     (if length rows \<noteq> 4 then [UnexpectedRowCount (length rows)] else [])"

text \<open>Lines 136 to 199, with the browser open.\<close>

definition finish :: "env \<Rightarrow> json \<Rightarrow> row list \<Rightarrow> outcome" where
  "finish e previousMetrics rows =
     (if length rows = 0 then
        \<lparr> acquired = True, closed = True, console_error = [NoRowsFound], written = None,
          status = Exited 1 \<rparr>
      else
        (let w = row_count_warning rows;
             metrics = build_metrics (now e) rows
         in if truthy previousMetrics
               \<and> stringify previousMetrics = stringify (metrics_json metrics)
            then \<lparr> acquired = True, closed = True, console_error = w, written = None,
                   status = Completed \<rparr>
            else if \<not> write_ok e
            then \<lparr> acquired = True, closed = False, console_error = w, written = None,
                   status = Rejected WriteError \<rparr>
            else \<lparr> acquired = True, closed = True, console_error = w,
                   written = Some (stringify_pretty (metrics_json metrics)),
                   status = Completed \<rparr>))"

text \<open>Lines 34 to 130, then the rest of the script.\<close>

definition browse :: "env \<Rightarrow> json \<Rightarrow> outcome" where
  "browse e previousMetrics =
     (if \<not> launch_ok e then abort False LaunchError
      else if \<not> new_page_ok e then abort True LaunchError
      else if \<not> goto_ok e then abort True NavigationError
      else if \<not> selector_found e then abort True TimeoutError
      else if \<not> frameHandle e then abort True TypeError
      else if \<not> contentFrame e then abort True TypeError
      else
        (case innerText e of
           None \<Rightarrow> abort True EvaluateError
         | Some allText \<Rightarrow>
             (case parse_rows (lines_of allText) of
                Inl err \<Rightarrow> abort True err
              | Inr rows \<Rightarrow> finish e previousMetrics rows)))"

definition run :: "env \<Rightarrow> outcome" where
  "run e =
     (case load_previous (number_text e) (outputFile e) of
        Inl err \<Rightarrow> abort False err
      | Inr previousMetrics \<Rightarrow> browse e previousMetrics)"

text \<open>
  What a later \<open>readFileSync(_, "utf8")\<close> returns for a string that \<open>writeFileSync\<close>
  wrote: the file is UTF-8, in which a surrogate that is not half of a pair becomes
  U+FFFD.
\<close>

fun read_back :: "jstr \<Rightarrow> jstr" where
  "read_back [] = []"
| "read_back [c] = (if is_high_surrogate c \<or> is_low_surrogate c then [0xFFFD] else [c])"
| "read_back (c # d # cs) =
     (if is_high_surrogate c \<and> is_low_surrogate d then c # d # read_back cs
      else if is_high_surrogate c \<or> is_low_surrogate c then 0xFFFD # read_back (d # cs)
      else c # read_back (d # cs))"

text \<open>The output file after a run.\<close>

definition file_after :: "env \<Rightarrow> file_state" where
  "file_after e =
     (case written (run e) of
        None \<Rightarrow> outputFile e
      | Some text \<Rightarrow> Content (read_back text))"

section \<open>Notions of the specification\<close>

text \<open>The characters that stripping keeps: ASCII digits and the minus sign.\<close>

definition digit_or_minus :: "jchar \<Rightarrow> bool" where
  "digit_or_minus c \<longleftrightarrow> is_digit c \<or> c = 0x2D"

text \<open>The record of a block: offset 1 as it is, offsets 2 to 9 stripped.\<close>

definition row_of_block :: "jstr list \<Rightarrow> row" where
  "row_of_block block =
     \<lparr> sheepweekindex = Some (block ! 1),
       total_head_inc_reoffers = filter digit_or_minus (block ! 2),
       clearance_rate_mm = filter digit_or_minus (block ! 3),
       amount_over_reserve = filter digit_or_minus (block ! 4),
       arli_ckg_dw = filter digit_or_minus (block ! 5),
       arl_change_sheepindex = filter digit_or_minus (block ! 6),
       total_head_change_sheepindex = filter digit_or_minus (block ! 7),
       clearance_rate_change_sheepindex = filter digit_or_minus (block ! 8),
       vor_change_sheepindex = filter digit_or_minus (block ! 9) \<rparr>"

text \<open>The positions of the marker lines, from the top of the text down.\<close>

definition marker_positions :: "jstr list \<Rightarrow> nat list" where
  "marker_positions lines =
     filter (\<lambda>i. lines ! i = js ''Select Row'') [0..<length lines]"

text \<open>The run gets as far as the text of the frame: the output file, if there is one,
  is read and parsed, and every call into the browser succeeds.\<close>

definition extracted :: "env \<Rightarrow> json \<Rightarrow> jstr \<Rightarrow> bool" where
  "extracted e previousMetrics allText \<longleftrightarrow>
     load_previous (number_text e) (outputFile e) = Inr previousMetrics
     \<and> launch_ok e \<and> new_page_ok e \<and> goto_ok e \<and> selector_found e
     \<and> frameHandle e \<and> contentFrame e \<and> innerText e = Some allText"

text \<open>The comparison of lines 172 to 175.\<close>

definition unchanged :: "json \<Rightarrow> metrics \<Rightarrow> bool" where
  "unchanged previousMetrics m \<longleftrightarrow>
     truthy previousMetrics \<and> stringify previousMetrics = stringify (metrics_json m)"

text \<open>A snapshot in which every row that is there has its week identifier: no property
  of it is \<open>undefined\<close>, so \<open>metrics_json\<close> leaves nothing out.\<close>

definition complete_slot :: "row option \<Rightarrow> bool" where
  "complete_slot s = (case s of None \<Rightarrow> True | Some r \<Rightarrow> sheepweekindex r \<noteq> None)"

definition complete :: "metrics \<Rightarrow> bool" where
  "complete m \<longleftrightarrow>
     complete_slot (this_week m) \<and> complete_slot (last_week m)
     \<and> complete_slot (two_weeks_ago m) \<and> complete_slot (three_weeks_ago m)"

section \<open>Notions used in the proofs\<close>

text \<open>The tokens \<open>ts\<close> in front of the result of lexing the rest.\<close>

definition prepend :: "token list \<Rightarrow> token list option \<Rightarrow> token list option" where
  "prepend ts r = (case r of None \<Rightarrow> None | Some us \<Rightarrow> Some (ts @ us))"

text \<open>The text \<open>a\<close>, in front of any text, lexes to the tokens \<open>ts\<close>.\<close>

definition lexes :: "jstr \<Rightarrow> token list \<Rightarrow> bool" where
  "lexes a ts \<longleftrightarrow> (\<forall>X. lex (a @ X) = prepend ts (lex X))"

text \<open>The token stream of a value.\<close>

fun tokens :: "json \<Rightarrow> token list" where
  "tokens JNull = [TNull]"
| "tokens (JBool b) = (if b then [TTrue] else [TFalse])"
| "tokens (JNum t) = [TNumber t]"
| "tokens (JStr s) = [TString s]"
| "tokens (JArr vs) = [TLBracket] @ join [TComma] (map tokens vs) @ [TRBracket]"
| "tokens (JObj ms) =
     [TLBrace] @ join [TComma] (map (\<lambda>(k, v). [TString k, TColon] @ tokens v) ms) @ [TRBrace]"

text \<open>Values without numbers whose objects have distinct keys, none of them an array
  index: the values that the script itself prints.\<close>

fun plain :: "json \<Rightarrow> bool" where
  "plain JNull = True"
| "plain (JBool b) = True"
| "plain (JNum t) = False"
| "plain (JStr s) = True"
| "plain (JArr vs) = list_all plain vs"
| "plain (JObj ms) =
     (distinct (map fst ms) \<and> list_all (\<lambda>(k, v). array_index k = None \<and> plain v) ms)"

text \<open>Running the automaton on from a state that may have failed.\<close>

definition feed :: "(jstr \<Rightarrow> jstr) \<Rightarrow> pstate option \<Rightarrow> token list \<Rightarrow> pstate option" where
  "feed nt r ts = (case r of None \<Rightarrow> None | Some s \<Rightarrow> run_tokens nt s ts)"

text \<open>Where a value is expected, the tokens of \<open>v\<close> deliver \<open>v\<close> to the open array or
  object.\<close>

definition accepted :: "(jstr \<Rightarrow> jstr) \<Rightarrow> json \<Rightarrow> bool" where
  "accepted nt v \<longleftrightarrow>
     (\<forall>st ts. run_tokens nt (st, Value) (tokens v @ ts) = feed nt (deliver v st) ts
            \<and> run_tokens nt (st, ValueOrEnd) (tokens v @ ts) = feed nt (deliver v st) ts)"

text \<open>Strings in which every surrogate is half of a pair.\<close>

fun well_formed :: "jstr \<Rightarrow> bool" where
  "well_formed [] = True"
| "well_formed [c] = (\<not> (is_high_surrogate c \<or> is_low_surrogate c))"
| "well_formed (c # d # cs) =
     (if is_high_surrogate c \<and> is_low_surrogate d then well_formed cs
      else \<not> (is_high_surrogate c \<or> is_low_surrogate c) \<and> well_formed (d # cs))"

section \<open>Example inputs\<close>

text \<open>The block of the specification's example, with one line after it.\<close>

definition example_block :: "jstr list" where
  "example_block =
     [js ''Select Row'', js ''W2024-10'', js ''1,234 head'', js ''-5%'', js ''$1,200'',
      js ''110.5'', js ''+2.1'', js ''-3'', js ''1.5'', js ''0.8'', js ''Select''  ]"

text \<open>Two markers in a row: the second one is also offset 1 of the first block.\<close>

definition overlap_lines :: "jstr list" where
  "overlap_lines =
     [js ''Select Row'', js ''Select Row'', js ''a'', js ''1'', js ''2'', js ''3'', js ''4'',
      js ''5'', js ''6'', js ''7'', js ''8'', js ''9'']"

text \<open>A marker with nine lines after it, at the end of the text.\<close>

definition ten_line_block :: "jstr list" where
  "ten_line_block =
     [js ''header'', js ''Select Row'', js ''W2024-10'', js ''1'', js ''2'', js ''3'',
      js ''4'', js ''5'', js ''6'', js ''7'', js ''8'']"

definition week_block :: "jstr \<Rightarrow> jstr list" where
  "week_block w =
     [js ''Select Row'', w, js ''1,500 head'', js ''85%'', js ''$1,200'', js ''110.5'',
      js ''+2.1'', js ''-3'', js ''1.5'', js ''0.8'', js ''...'']"

definition four_block_lines :: "jstr list" where
  "four_block_lines =
     week_block (js ''W2024-10'') @ week_block (js ''W2024-09'')
     @ week_block (js ''W2024-08'') @ week_block (js ''W2024-07'')"

text \<open>The lines with the white space of a rendered page around them.\<close>

definition text_of_lines :: "jstr list \<Rightarrow> jstr" where
  "text_of_lines ls = concat (map (\<lambda>l. js ''  '' @ l @ [0x20, 0x0A, 0x0A]) ls)"

definition clean_line :: "jstr \<Rightarrow> bool" where
  "clean_line l \<longleftrightarrow> l \<noteq> [] \<and> \<not> is_white (hd l) \<and> \<not> is_white (last l) \<and> 0x0A \<notin> set l"

definition week_row :: "jstr \<Rightarrow> row" where
  "week_row w =
     \<lparr> sheepweekindex = Some w,
       total_head_inc_reoffers = js ''1500'',
       clearance_rate_mm = js ''85'',
       amount_over_reserve = js ''1200'',
       arli_ckg_dw = js ''1105'',
       arl_change_sheepindex = js ''21'',
       total_head_change_sheepindex = js ''-3'',
       clearance_rate_change_sheepindex = js ''15'',
       vor_change_sheepindex = js ''08'' \<rparr>"

text \<open>Lines without a marker line: the marker is the exact line \<open>Select Row\<close>.\<close>

definition no_marker_lines :: "jstr list" where
  "no_marker_lines = [js ''Something went wrong'', js ''Select Row:'', js ''select row'']"

text \<open>A run in which there is no output file yet and everything outside the script
  works: the frame shows the lines \<open>ls\<close> and the clock shows \<open>t\<close>.\<close>

definition base_env :: "jstr list \<Rightarrow> jstr \<Rightarrow> env" where
  "base_env ls t =
     \<lparr> number_text = (\<lambda>n. n), outputFile = Absent, launch_ok = True, new_page_ok = True,
       goto_ok = True, selector_found = True, frameHandle = True, contentFrame = True,
       innerText = Some (text_of_lines ls), now = t, write_ok = True \<rparr>"

text \<open>The next run in the same surroundings, at time \<open>t\<close>, with the output file as the
  run before left it.\<close>

definition next_env :: "env \<Rightarrow> jstr \<Rightarrow> env" where
  "next_env e t = e \<lparr> outputFile := file_after e, now := t \<rparr>"

text \<open>An output file that is not JSON.\<close>

definition broken_file :: jstr where
  "broken_file = js ''{ updated_at: 2024 }''"

section \<open>The row parser in closed form\<close>

declare rows_loop.simps [simp del]

lemma replace_all_empty: "replace_all cls [] s = filter (\<lambda>c. \<not> cls c) s"
  by (induction s) auto

lemma strip_field_Some: "strip_field (Some s) = Inr (filter digit_or_minus s)"
proof -
  have "(\<lambda>c. \<not> not_digit_or_minus c) = digit_or_minus"
    by (rule ext) (simp add: not_digit_or_minus_def digit_or_minus_def)
  then show ?thesis
    by (simp add: strip_field_def replace_all_empty)
qed

lemma make_row_closed:
  "make_row block = (if 10 \<le> length block then Inr (row_of_block block) else Inl TypeError)"
proof (cases "10 \<le> length block")
  case True
  then show ?thesis
    by (simp add: make_row_def at_def and_then_def strip_field_Some row_of_block_def)
next
  case False
  then show ?thesis
    by (auto simp add: make_row_def at_def and_then_def strip_field_Some strip_field_def)
qed

lemma length_slice: "length (slice xs i (i + 11)) = min 11 (length xs - i)"
  by (simp add: slice_def)

lemma rows_loop_closed:
  "rows_loop lines i rows =
     (if \<forall>j \<in> set (filter (\<lambda>j. lines ! j = js ''Select Row'') [i..<length lines]). j + 10 \<le> length lines
      then Inr (rows @ map (\<lambda>j. row_of_block (slice lines j (j + 11)))
                         (filter (\<lambda>j. lines ! j = js ''Select Row'') [i..<length lines]))
      else Inl TypeError)"
proof (induction lines i rows rule: rows_loop.induct)
  case (1 lines i rows)
  show ?case
  proof (cases "i < length lines")
    case False
    then show ?thesis by (simp add: rows_loop.simps [of lines i rows])
  next
    case lt: True
    then have upt: "[i..<length lines] = i # [Suc i..<length lines]"
      by (simp add: upt_conv_Cons)
    show ?thesis
    proof (cases "lines ! i = js ''Select Row''")
      case False
      with lt "1.IH"(2) show ?thesis
        by (simp add: rows_loop.simps [of lines i rows] upt)
    next
      case m: True
      show ?thesis
      proof (cases "i + 10 \<le> length lines")
        case True
        then have mk: "make_row (slice lines i (i + 11)) = Inr (row_of_block (slice lines i (i + 11)))"
          by (simp add: make_row_closed length_slice)
        from lt m mk "1.IH"(1) [OF lt m mk] show ?thesis
          using True by (simp add: rows_loop.simps [of lines i rows] upt)
      next
        case False
        then have mk: "make_row (slice lines i (i + 11)) = Inl TypeError"
          by (simp add: make_row_closed length_slice)
        from lt m mk False show ?thesis
          by (simp add: rows_loop.simps [of lines i rows] upt)
      qed
    qed
  qed
qed

lemma parse_rows_closed:
  "parse_rows lines =
     (if \<forall>j \<in> set (marker_positions lines). j + 10 \<le> length lines
      then Inr (map (\<lambda>j. row_of_block (slice lines j (j + 11))) (marker_positions lines))
      else Inl TypeError)"
  by (simp add: parse_rows_def rows_loop_closed marker_positions_def)

lemma length_filter_index:
  "length (filter (\<lambda>i. P (xs ! i)) [0..<length xs]) = length (filter P xs)"
proof (induction xs rule: rev_induct)
  case Nil
  then show ?case by simp
next
  case (snoc x xs)
  have "filter (\<lambda>i. P ((xs @ [x]) ! i)) [0..<length xs] = filter (\<lambda>i. P (xs ! i)) [0..<length xs]"
    by (rule filter_cong) (auto simp: nth_append)
  with snoc show ?case by simp
qed

lemma length_marker_positions: "length (marker_positions lines) = selectRowCount lines"
  unfolding marker_positions_def selectRowCount_def
  by (rule length_filter_index [of "\<lambda>l. l = js ''Select Row''" lines])

lemma marker_positions_set:
  "set (marker_positions lines) = {i. i < length lines \<and> lines ! i = js ''Select Row''}"
  by (auto simp: marker_positions_def)

lemma marker_positions_sorted: "sorted_wrt (<) (marker_positions lines)"
  unfolding marker_positions_def by (rule sorted_wrt_filter) (simp add: sorted_wrt_upt)

lemma parse_rows_Inr:
  assumes "parse_rows lines = Inr rows"
  shows "rows = map (\<lambda>j. row_of_block (slice lines j (j + 11))) (marker_positions lines)"
    and "\<forall>j \<in> set (marker_positions lines). j + 10 \<le> length lines"
  using assms by (auto simp: parse_rows_closed split: if_splits)

lemma parse_rows_error: "parse_rows lines = Inl err \<Longrightarrow> err = TypeError"
  by (auto simp: parse_rows_closed split: if_splits)

lemma slice_nth: "k < 11 \<Longrightarrow> j + k < length xs \<Longrightarrow> slice xs j (j + 11) ! k = xs ! (j + k)"
  by (simp add: slice_def)

section \<open>Lines of a rendered text\<close>

lemma split_newline_append:
  "0x0A \<notin> set l \<Longrightarrow> split_newline (l @ 0x0A # rest) = l # split_newline rest"
  by (induction l) auto

lemma trim_padded:
  assumes "clean_line l"
  shows "trim (js ''  '' @ l @ [0x20]) = l"
proof -
  from assms obtain c l' where l: "l = c # l'" and c: "\<not> is_white c"
    by (cases l) (auto simp: clean_line_def)
  have w: "is_white 0x20" by (simp add: is_white_def)
  have 1: "dropWhile is_white (js ''  '' @ l @ [0x20]) = l @ [0x20]"
    using c w by (simp add: l js_def)
  from assms have "rev l \<noteq> []" and "\<not> is_white (hd (rev l))"
    by (auto simp: clean_line_def hd_rev)
  then have 2: "dropWhile is_white (rev l) = rev l"
    by (cases "rev l") auto
  show ?thesis
    unfolding trim_def 1 using w 2 by simp
qed

lemma trim_Nil: "trim [] = []"
  by (simp add: trim_def)

lemma lines_of_text_of_lines:
  "list_all clean_line ls \<Longrightarrow> lines_of (text_of_lines ls) = ls"
proof (induction ls)
  case Nil
  then show ?case by (simp add: lines_of_def text_of_lines_def trim_Nil)
next
  case (Cons l ls)
  then have cl: "clean_line l" and IH: "lines_of (text_of_lines ls) = ls" by simp_all
  have nl: "0x0A \<notin> set (js ''  '' @ l @ [0x20])"
    using cl by (simp add: clean_line_def js_def)
  have "text_of_lines (l # ls) = (js ''  '' @ l @ [0x20]) @ 0x0A # ([] @ 0x0A # text_of_lines ls)"
    by (simp add: text_of_lines_def)
  moreover have "split_newline ((js ''  '' @ l @ [0x20]) @ 0x0A # ([] @ 0x0A # text_of_lines ls))
      = (js ''  '' @ l @ [0x20]) # split_newline ([] @ 0x0A # text_of_lines ls)"
    by (rule split_newline_append [OF nl])
  ultimately have "split_newline (text_of_lines (l # ls)) =
               (js ''  '' @ l @ [0x20]) # [] # split_newline (text_of_lines ls)"
    by simp
  then show ?case
    using cl IH trim_padded [OF cl] by (simp add: lines_of_def trim_Nil clean_line_def)
qed

section \<open>The example inputs, evaluated\<close>

lemma example_block_positions: "marker_positions example_block = [0]"
  by (simp add: marker_positions_def example_block_def upt_rec js_def)

lemma example_block_parse: "parse_rows example_block = Inr [row_of_block example_block]"
  by (simp add: parse_rows_closed example_block_positions)
     (simp add: example_block_def slice_def)

lemma overlap_lines_positions: "marker_positions overlap_lines = [0, 1]"
  by (simp add: marker_positions_def overlap_lines_def upt_rec js_def)

lemma ten_line_block_positions: "marker_positions ten_line_block = [1]"
  by (simp add: marker_positions_def ten_line_block_def upt_rec js_def)

lemma clean_four_blocks: "list_all clean_line four_block_lines"
  by (simp add: four_block_lines_def week_block_def clean_line_def js_def is_white_def)

lemma lines_of_four_blocks: "lines_of (text_of_lines four_block_lines) = four_block_lines"
  by (rule lines_of_text_of_lines [OF clean_four_blocks])

lemma four_block_positions: "marker_positions four_block_lines = [0, 11, 22, 33]"
  by (simp add: marker_positions_def four_block_lines_def week_block_def upt_rec js_def)

lemma four_block_rows:
  "parse_rows four_block_lines =
     Inr [week_row (js ''W2024-10''), week_row (js ''W2024-09''),
          week_row (js ''W2024-08''), week_row (js ''W2024-07'')]"
  by (simp add: parse_rows_closed four_block_positions)
     (simp add: four_block_lines_def week_block_def slice_def row_of_block_def week_row_def
        digit_or_minus_def is_digit_def js_def)

section \<open>Claims about the row parser\<close>

text \<open>
  C2. For every parsed block, the field at offset 1 is stored as it is, as the week
  identifier, and each field at offsets 2 to 9 is stored with every character removed that
  is not an ASCII digit or a minus sign. The \<open>k\<close>-th row comes from the block at the
  \<open>k\<close>-th marker. In the witness, \<open>1,234 head\<close> becomes \<open>1234\<close>, \<open>-5%\<close> becomes \<open>-5\<close>
  and \<open>110.5\<close> becomes \<open>1105\<close>.
\<close>

theorem field_stripping:
  assumes "parse_rows lines = Inr rows" and "k < length rows"
  shows "sheepweekindex (rows ! k) = Some (lines ! (marker_positions lines ! k + 1))
       \<and> total_head_inc_reoffers (rows ! k) = filter digit_or_minus (lines ! (marker_positions lines ! k + 2))
       \<and> clearance_rate_mm (rows ! k) = filter digit_or_minus (lines ! (marker_positions lines ! k + 3))
       \<and> amount_over_reserve (rows ! k) = filter digit_or_minus (lines ! (marker_positions lines ! k + 4))
       \<and> arli_ckg_dw (rows ! k) = filter digit_or_minus (lines ! (marker_positions lines ! k + 5))
       \<and> arl_change_sheepindex (rows ! k) = filter digit_or_minus (lines ! (marker_positions lines ! k + 6))
       \<and> total_head_change_sheepindex (rows ! k) = filter digit_or_minus (lines ! (marker_positions lines ! k + 7))
       \<and> clearance_rate_change_sheepindex (rows ! k) = filter digit_or_minus (lines ! (marker_positions lines ! k + 8))
       \<and> vor_change_sheepindex (rows ! k) = filter digit_or_minus (lines ! (marker_positions lines ! k + 9))"
proof -
  let ?p = "marker_positions lines ! k"
  from assms(2) have k: "k < length (marker_positions lines)"
    unfolding parse_rows_Inr(1) [OF assms(1)] by simp
  then have "?p \<in> set (marker_positions lines)" by simp
  with parse_rows_Inr(2) [OF assms(1)] have len: "?p + 10 \<le> length lines" by blast
  from k have row: "rows ! k = row_of_block (slice lines ?p (?p + 11))"
    unfolding parse_rows_Inr(1) [OF assms(1)] by simp
  from len show ?thesis
    unfolding row by (simp add: row_of_block_def slice_nth)
qed

theorem field_stripping_witness:
  "parse_rows example_block = Inr [row_of_block example_block]
   \<and> sheepweekindex (row_of_block example_block) = Some (js ''W2024-10'')
   \<and> total_head_inc_reoffers (row_of_block example_block) = js ''1234''
   \<and> clearance_rate_mm (row_of_block example_block) = js ''-5''
   \<and> amount_over_reserve (row_of_block example_block) = js ''1200''
   \<and> arli_ckg_dw (row_of_block example_block) = js ''1105''
   \<and> arl_change_sheepindex (row_of_block example_block) = js ''21''
   \<and> total_head_change_sheepindex (row_of_block example_block) = js ''-3''
   \<and> clearance_rate_change_sheepindex (row_of_block example_block) = js ''15''
   \<and> vor_change_sheepindex (row_of_block example_block) = js ''08''"
  using field_stripping [OF example_block_parse, of 0]
  by (simp add: example_block_parse example_block_positions)
     (simp add: example_block_def js_def digit_or_minus_def is_digit_def)

text \<open>
  C3. A text with exactly four markers, each followed by at least ten more lines, gives
  exactly four rows; they are the records of the blocks in the order of the markers in
  the text, and they fill \<open>this_week\<close>, \<open>last_week\<close>, \<open>two_weeks_ago\<close> and
  \<open>three_weeks_ago\<close> in that order.
\<close>

theorem four_blocks_in_order:
  assumes "lines = lines_of allText"
    and "selectRowCount lines = 4"
    and "\<forall>i < length lines. lines ! i = js ''Select Row'' \<longrightarrow> i + 10 < length lines"
  shows "\<exists>r0 r1 r2 r3.
           parse_rows lines = Inr [r0, r1, r2, r3]
         \<and> [r0, r1, r2, r3] =
             map (\<lambda>i. row_of_block (slice lines i (i + 11))) (marker_positions lines)
         \<and> sorted_wrt (<) (marker_positions lines)
         \<and> build_metrics t [r0, r1, r2, r3] =
             \<lparr> updated_at = t, this_week = Some r0, last_week = Some r1,
               two_weeks_ago = Some r2, three_weeks_ago = Some r3 \<rparr>"
proof -
  let ?rows = "map (\<lambda>i. row_of_block (slice lines i (i + 11))) (marker_positions lines)"
  from assms(3) have "\<forall>j \<in> set (marker_positions lines). j + 10 \<le> length lines"
    by (auto simp: marker_positions_set intro: less_imp_le)
  then have p: "parse_rows lines = Inr ?rows"
    by (simp add: parse_rows_closed)
  have "length ?rows = 4"
    using assms(2) by (simp add: length_marker_positions)
  then obtain r0 r1 r2 r3 where r: "?rows = [r0, r1, r2, r3]"
    by (auto simp: length_Suc_conv numeral_eq_Suc)
  have "build_metrics t [r0, r1, r2, r3] =
          \<lparr> updated_at = t, this_week = Some r0, last_week = Some r1,
            two_weeks_ago = Some r2, three_weeks_ago = Some r3 \<rparr>"
    by (simp add: build_metrics_def at_def)
  with p r marker_positions_sorted [of lines] show ?thesis
    by auto
qed

theorem four_blocks_in_order_witness:
  "selectRowCount (lines_of (text_of_lines four_block_lines)) = 4
   \<and> parse_rows (lines_of (text_of_lines four_block_lines)) =
       Inr [week_row (js ''W2024-10''), week_row (js ''W2024-09''),
            week_row (js ''W2024-08''), week_row (js ''W2024-07'')]
   \<and> build_metrics (js ''2024-03-08T00:00:00.000Z'')
        [week_row (js ''W2024-10''), week_row (js ''W2024-09''),
         week_row (js ''W2024-08''), week_row (js ''W2024-07'')] =
       \<lparr> updated_at = js ''2024-03-08T00:00:00.000Z'',
         this_week = Some (week_row (js ''W2024-10'')),
         last_week = Some (week_row (js ''W2024-09'')),
         two_weeks_ago = Some (week_row (js ''W2024-08'')),
         three_weeks_ago = Some (week_row (js ''W2024-07'')) \<rparr>"
proof -
  have l: "four_block_lines = lines_of (text_of_lines four_block_lines)"
    by (simp add: lines_of_four_blocks)
  have c: "selectRowCount four_block_lines = 4"
    by (simp add: length_marker_positions [symmetric] four_block_positions)
  have h: "\<forall>i < length four_block_lines.
             four_block_lines ! i = js ''Select Row'' \<longrightarrow> i + 10 < length four_block_lines"
  proof (intro allI impI)
    fix i assume "i < length four_block_lines" and "four_block_lines ! i = js ''Select Row''"
    then have "i \<in> set (marker_positions four_block_lines)"
      by (simp add: marker_positions_set)
    then show "i + 10 < length four_block_lines"
      by (auto simp: four_block_positions) (simp_all add: four_block_lines_def week_block_def)
  qed
  have b: "build_metrics (js ''2024-03-08T00:00:00.000Z'')
        [week_row (js ''W2024-10''), week_row (js ''W2024-09''),
         week_row (js ''W2024-08''), week_row (js ''W2024-07'')] =
       \<lparr> updated_at = js ''2024-03-08T00:00:00.000Z'',
         this_week = Some (week_row (js ''W2024-10'')),
         last_week = Some (week_row (js ''W2024-09'')),
         two_weeks_ago = Some (week_row (js ''W2024-08'')),
         three_weeks_ago = Some (week_row (js ''W2024-07'')) \<rparr>"
    by (simp add: build_metrics_def at_def)
  from four_blocks_in_order [OF l c h, of "js ''2024-03-08T00:00:00.000Z''"] c four_block_rows b
  show ?thesis
    by (simp add: lines_of_four_blocks)
qed

text \<open>
  C5, as the claim states it, fails: a marker with fewer than nine lines after it does not
  give a record with undefined fields. The first missing field that is to be stripped
  raises a TypeError, and the parser has no result.
\<close>

theorem short_block_counterexample:
  "lines_of (js ''Select Row'' @ [0x0A] @ js ''W2024-10'' @ [0x0A] @ js ''1,234 head'')
     = [js ''Select Row'', js ''W2024-10'', js ''1,234 head'']
   \<and> parse_rows [js ''Select Row'', js ''W2024-10'', js ''1,234 head''] = Inl TypeError"
  by (simp add: parse_rows_closed marker_positions_def upt_rec)
     (simp add: lines_of_def trim_def is_white_def js_def)

text \<open>
  C5, amended. For a marker at line \<open>i\<close> the parser takes the slice of the lines
  \<open>i\<close> to \<open>i + 10\<close>, shorter at the end of the text. When the slice has fewer than ten
  lines the parser raises a TypeError; whenever the parser has a result, the slice has at
  least ten lines and every record has its week identifier, and so all nine fields,
  defined. When the slice of every marker has at least ten lines, the parser gives the
  records of these slices: offset 10 is never read.
\<close>

theorem short_block_amended:
  assumes "i < length lines" and "lines ! i = js ''Select Row''"
  shows "(length (slice lines i (i + 11)) < 10 \<longrightarrow> parse_rows lines = Inl TypeError)
       \<and> (parse_rows lines = Inr rows \<longrightarrow>
            10 \<le> length (slice lines i (i + 11)) \<and> (\<forall>r \<in> set rows. sheepweekindex r \<noteq> None))
       \<and> ((\<forall>j \<in> set (marker_positions lines). 10 \<le> length (slice lines j (j + 11))) \<longrightarrow>
            parse_rows lines =
              Inr (map (\<lambda>j. row_of_block (slice lines j (j + 11))) (marker_positions lines)))"
proof -
  from assms have i: "i \<in> set (marker_positions lines)"
    by (auto simp: marker_positions_set intro: less_imp_le)
  have a: "parse_rows lines = Inl TypeError" if "length (slice lines i (i + 11)) < 10"
  proof -
    from that have "\<not> i + 10 \<le> length lines" by (simp add: length_slice)
    with i have "\<not> (\<forall>j \<in> set (marker_positions lines). j + 10 \<le> length lines)" by blast
    then show ?thesis by (simp add: parse_rows_closed)
  qed
  have b: "10 \<le> length (slice lines i (i + 11)) \<and> (\<forall>r \<in> set rows. sheepweekindex r \<noteq> None)"
    if "parse_rows lines = Inr rows"
  proof
    from parse_rows_Inr(2) [OF that] i have "i + 10 \<le> length lines" by blast
    then show "10 \<le> length (slice lines i (i + 11))" by (simp add: length_slice)
    show "\<forall>r \<in> set rows. sheepweekindex r \<noteq> None"
      unfolding parse_rows_Inr(1) [OF that] by (auto simp: row_of_block_def)
  qed
  have c: "parse_rows lines =
             Inr (map (\<lambda>j. row_of_block (slice lines j (j + 11))) (marker_positions lines))"
    if "\<forall>j \<in> set (marker_positions lines). 10 \<le> length (slice lines j (j + 11))"
  proof -
    from that have "\<forall>j \<in> set (marker_positions lines). j + 10 \<le> length lines"
      by (auto simp: length_slice)
    then show ?thesis by (simp add: parse_rows_closed)
  qed
  from a b c show ?thesis by blast
qed

theorem short_block_amended_witness:
  "length (slice ten_line_block 1 (1 + 11)) = 10
   \<and> parse_rows ten_line_block = Inr [row_of_block (tl ten_line_block)]
   \<and> sheepweekindex (row_of_block (tl ten_line_block)) = Some (js ''W2024-10'')
   \<and> length (slice (butlast ten_line_block) 1 (1 + 11)) = 9
   \<and> parse_rows (butlast ten_line_block) = Inl TypeError"
proof -
  have p: "parse_rows ten_line_block = Inr [row_of_block (tl ten_line_block)]"
    by (simp add: parse_rows_closed ten_line_block_positions)
       (simp add: ten_line_block_def slice_def)
  have a: "1 < length ten_line_block" "ten_line_block ! 1 = js ''Select Row''"
    by (simp_all add: ten_line_block_def)
  have b: "1 < length (butlast ten_line_block)" "butlast ten_line_block ! 1 = js ''Select Row''"
    "length (slice (butlast ten_line_block) 1 (1 + 11)) < 10"
    by (simp_all add: ten_line_block_def slice_def)
  from short_block_amended [OF a, of "[row_of_block (tl ten_line_block)]"] p
       short_block_amended [OF b(1,2), of "[]"] b(3)
  show ?thesis
    by (simp add: ten_line_block_def slice_def row_of_block_def)
qed

text \<open>
  C10. When every marker line is followed by at least ten more lines, the parser gives
  one record for each marker line: the number of rows is the number of markers. Blocks may
  overlap; in the witness the second marker is a field of the first block.
\<close>

theorem markers_give_rows:
  assumes "\<forall>i < length lines. lines ! i = js ''Select Row'' \<longrightarrow> i + 10 < length lines"
  shows "\<exists>rows. parse_rows lines = Inr rows \<and> length rows = selectRowCount lines"
proof -
  from assms have "\<forall>j \<in> set (marker_positions lines). j + 10 \<le> length lines"
    by (auto simp: marker_positions_set intro: less_imp_le)
  then show ?thesis
    by (simp add: parse_rows_closed length_marker_positions)
qed

theorem markers_give_rows_witness:
  "selectRowCount overlap_lines = 2
   \<and> (\<exists>rows. parse_rows overlap_lines = Inr rows \<and> length rows = selectRowCount overlap_lines)
   \<and> parse_rows overlap_lines =
       Inr [row_of_block (take 11 overlap_lines), row_of_block (tl overlap_lines)]"
proof -
  have h: "\<forall>i < length overlap_lines.
             overlap_lines ! i = js ''Select Row'' \<longrightarrow> i + 10 < length overlap_lines"
  proof (intro allI impI)
    fix i assume "i < length overlap_lines" and "overlap_lines ! i = js ''Select Row''"
    then have "i \<in> set (marker_positions overlap_lines)"
      by (simp add: marker_positions_set)
    then show "i + 10 < length overlap_lines"
      by (auto simp: overlap_lines_positions) (simp_all add: overlap_lines_def)
  qed
  have c: "selectRowCount overlap_lines = 2"
    by (simp add: length_marker_positions [symmetric] overlap_lines_positions)
  have p: "parse_rows overlap_lines =
             Inr [row_of_block (take 11 overlap_lines), row_of_block (tl overlap_lines)]"
    by (simp add: parse_rows_closed overlap_lines_positions)
       (simp add: overlap_lines_def slice_def)
  from markers_give_rows [OF h] c p show ?thesis by simp
qed

section \<open>Quoting and reading a string\<close>

lemma hex_value_hex_digit: "d < 16 \<Longrightarrow> hex_value (hex_digit d) = Some d"
proof -
  assume "d < 16"
  then have "d = 0 \<or> d = 1 \<or> d = 2 \<or> d = 3 \<or> d = 4 \<or> d = 5 \<or> d = 6 \<or> d = 7 \<or> d = 8
           \<or> d = 9 \<or> d = 10 \<or> d = 11 \<or> d = 12 \<or> d = 13 \<or> d = 14 \<or> d = 15"
    by arith
  then show ?thesis
    by (elim disjE) (simp_all add: hex_value_def hex_digit_def)
qed

lemma hex4_value_unicode_digits:
  "hex4_value (hex_digit (unat c div 4096)) (hex_digit (unat c div 256 mod 16))
     (hex_digit (unat c div 16 mod 16)) (hex_digit (unat c mod 16)) = Some c"
proof -
  have "unat c < 2 ^ 16"
    using unsigned_less [of c, where ?'a = nat] by simp
  then have lt: "unat c < 65536" by simp
  then have a: "unat c div 4096 < 16" by simp
  define n1 where "n1 = unat c div 16"
  define n2 where "n2 = n1 div 16"
  define n3 where "n3 = n2 div 16"
  have e1: "unat c = n1 * 16 + unat c mod 16" by (simp add: n1_def)
  have e2: "n1 = n2 * 16 + n1 mod 16" by (simp add: n2_def)
  have e3: "n2 = n3 * 16 + n2 mod 16" by (simp add: n3_def)
  have d2: "unat c div 256 = n2" by (simp add: n2_def n1_def div_mult2_eq [symmetric])
  have d3: "unat c div 4096 = n3" by (simp add: n3_def n2_def n1_def div_mult2_eq [symmetric])
  have n: "unat c div 4096 * 4096 + unat c div 256 mod 16 * 256 + unat c div 16 mod 16 * 16
           + unat c mod 16 = unat c"
    unfolding d2 d3 n1_def [symmetric] using e1 e2 e3 by arith
  show ?thesis
    by (simp add: hex4_value_def hex_value_hex_digit a n)
qed

lemma lex_string_quote_mark: "lex_string (0x22 # X) = Some ([], X)"
  by simp

lemma lex_string_plain:
  "c \<noteq> 0x22 \<Longrightarrow> c \<noteq> 0x5C \<Longrightarrow> \<not> c < 0x20 \<Longrightarrow> lex_string (c # X) = cons_fst c (lex_string X)"
  by simp

lemma lex_string_short_escape:
  "e \<noteq> 0x75 \<Longrightarrow> unescape e = Some w \<Longrightarrow> lex_string (0x5C # e # X) = cons_fst w (lex_string X)"
  by simp

lemma lex_string_unicode_escape:
  "lex_string (unicode_escape c @ X) = cons_fst c (lex_string X)"
  by (simp add: unicode_escape_def hex4_value_unicode_digits)

declare lex_string.simps [simp del]

lemma lex_string_quote_unit:
  "lex_string (quote_unit c @ X) = cons_fst c (lex_string X)"
proof -
  consider "c = 0x08" | "c = 0x09" | "c = 0x0A" | "c = 0x0C" | "c = 0x0D" | "c = 0x22" | "c = 0x5C"
    | "c \<notin> {0x08, 0x09, 0x0A, 0x0C, 0x0D, 0x22, 0x5C}"
        "c < 0x20 \<or> is_high_surrogate c \<or> is_low_surrogate c"
    | "c \<notin> {0x08, 0x09, 0x0A, 0x0C, 0x0D, 0x22, 0x5C}"
        "\<not> (c < 0x20 \<or> is_high_surrogate c \<or> is_low_surrogate c)"
    by blast
  then show ?thesis
  proof cases
    case 8
    then have "quote_unit c = unicode_escape c"
      by (simp add: quote_unit_def)
    then show ?thesis by (simp add: lex_string_unicode_escape)
  next
    case 9
    then have "quote_unit c = [c]"
      by (simp add: quote_unit_def)
    with 9 show ?thesis by (simp add: lex_string_plain)
  qed (simp_all add: quote_unit_def unescape_def lex_string_short_escape)
qed

lemma surrogate_plain:
  assumes "is_high_surrogate c \<or> is_low_surrogate c"
  shows "c \<noteq> 0x22" and "c \<noteq> 0x5C" and "\<not> c < 0x20"
  using assms
  by (auto simp: is_high_surrogate_def is_low_surrogate_def word_le_nat_alt word_less_nat_alt)

lemma lex_string_quote_body:
  "lex_string (quote_body s @ 0x22 # X) = Some (s, X)"
proof (induction s rule: quote_body.induct)
  case 1
  show ?case by (simp add: lex_string_quote_mark)
next
  case (2 c)
  show ?case by (simp add: lex_string_quote_unit lex_string_quote_mark cons_fst_def)
next
  case (3 c d cs)
  show ?case
  proof (cases "is_high_surrogate c \<and> is_low_surrogate d")
    case True
    then have qb: "quote_body (c # d # cs) = c # d # quote_body cs" by simp
    from True have "lex_string (c # d # quote_body cs @ 0x22 # X)
        = cons_fst c (cons_fst d (lex_string (quote_body cs @ 0x22 # X)))"
      by (simp add: lex_string_plain surrogate_plain)
    with 3(1) [OF True] show ?thesis
      unfolding qb by (simp add: cons_fst_def)
  next
    case False
    then have qb: "quote_body (c # d # cs) = quote_unit c @ quote_body (d # cs)" by auto
    from 3(2) [OF False] show ?thesis
      unfolding qb by (simp add: lex_string_quote_unit cons_fst_def del: quote_body.simps)
  qed
qed

section \<open>Lexing a printed value\<close>

lemma prepend_Nil: "prepend [] r = r"
  by (simp add: prepend_def split: option.splits)

lemma prepend_prepend: "prepend ts (prepend us r) = prepend (ts @ us) r"
  by (simp add: prepend_def split: option.splits)

lemma cons_tok_prepend: "cons_tok t r = prepend [t] r"
  by (simp add: cons_tok_def prepend_def split: option.splits)

lemma lexes_Nil: "lexes [] []"
  by (simp add: lexes_def prepend_Nil)

lemma lexes_append: "lexes a ts \<Longrightarrow> lexes b us \<Longrightarrow> lexes (a @ b) (ts @ us)"
  by (simp add: lexes_def prepend_prepend)

lemma lexes_space: "is_json_space c \<Longrightarrow> lexes [c] []"
  by (simp add: lexes_def prepend_Nil)

lemma lexes_structural:
  "lexes [0x7B] [TLBrace]" "lexes [0x7D] [TRBrace]" "lexes [0x5B] [TLBracket]"
  "lexes [0x5D] [TRBracket]" "lexes [0x3A] [TColon]" "lexes [0x2C] [TComma]"
  by (simp_all add: lexes_def cons_tok_prepend is_json_space_def)

lemma lexes_names:
  "lexes (js ''null'') [TNull]" "lexes (js ''true'') [TTrue]" "lexes (js ''false'') [TFalse]"
  by (simp_all add: lexes_def cons_tok_prepend is_json_space_def js_def strip_prefix_def
        is_digit_def)

lemma lexes_quote: "lexes (quote s) [TString s]"
  by (simp add: lexes_def quote_def cons_tok_prepend is_json_space_def lex_string_quote_body)

declare lex.simps [simp del]

lemma lexes_indent: "lexes (indent n) []"
proof -
  have "lexes (replicate k 0x20) []" for k
  proof (induction k)
    case 0
    show ?case by (simp add: lexes_Nil)
  next
    case (Suc k)
    have "lexes ([0x20] @ replicate k 0x20) ([] @ [])"
      by (rule lexes_append [OF lexes_space Suc]) (simp add: is_json_space_def)
    then show ?case by simp
  qed
  then show ?thesis by (simp add: indent_def)
qed

lemma lexes_newline_indent: "lexes ([0x0A] @ indent n) []"
  using lexes_append [OF lexes_space lexes_indent, of "0x0A" n]
  by (simp add: is_json_space_def)

lemma lexes_separator: "lexes (js '','' @ [0x0A] @ indent n) [TComma]"
  using lexes_append [OF lexes_structural(6) lexes_newline_indent, of n]
  by (simp add: js_def)

lemma join_Cons: "join sep (x # xs) = x @ concat (map (\<lambda>y. sep @ y) xs)"
  by (induction xs arbitrary: x) auto

lemma lexes_concat:
  assumes "\<And>x. x \<in> set xs \<Longrightarrow> lexes (f x) (g x)"
  shows "lexes (concat (map f xs)) (concat (map g xs))"
  using assms
proof (induction xs)
  case Nil
  show ?case by (simp add: lexes_Nil)
next
  case (Cons x xs)
  then show ?case by (simp add: lexes_append)
qed

lemma lexes_join:
  assumes "lexes sep tsep" and "\<And>x. x \<in> set xs \<Longrightarrow> lexes (f x) (g x)"
  shows "lexes (join sep (map f xs)) (join tsep (map g xs))"
proof (cases xs)
  case Nil
  then show ?thesis by (simp add: lexes_Nil)
next
  case (Cons x xs')
  have "lexes (concat (map (\<lambda>y. sep @ f y) xs')) (concat (map (\<lambda>y. tsep @ g y) xs'))"
    by (rule lexes_concat) (simp add: lexes_append assms Cons)
  then have "lexes (f x @ concat (map (\<lambda>y. sep @ f y) xs')) (g x @ concat (map (\<lambda>y. tsep @ g y) xs'))"
    by (intro lexes_append assms(2)) (simp_all add: Cons)
  then show ?thesis
    by (simp add: Cons join_Cons comp_def)
qed

lemma lexes_stringify_indented: "plain v \<Longrightarrow> lexes (stringify_indented n v) (tokens v)"
proof (induction v arbitrary: n)
  case JNull
  show ?case by (simp add: lexes_names)
next
  case (JBool b)
  show ?case by (simp add: lexes_names)
next
  case (JNum t)
  then show ?case by simp
next
  case (JStr s)
  show ?case by (simp add: lexes_quote)
next
  case (JArr vs)
  show ?case
  proof (cases "vs = []")
    case True
    have "lexes ([0x5B] @ [0x5D]) ([TLBracket] @ [TRBracket])"
      by (intro lexes_append lexes_structural)
    with True show ?thesis by (simp add: js_def)
  next
    case False
    have el: "lexes (stringify_indented (n + 1) x) (tokens x)" if "x \<in> set vs" for x
      using JArr that by (simp add: list_all_iff)
    have "lexes ([0x5B] @ ([0x0A] @ indent (n + 1))
                 @ join (js '','' @ [0x0A] @ indent (n + 1)) (map (stringify_indented (n + 1)) vs)
                 @ ([0x0A] @ indent n) @ [0x5D])
                ([TLBracket] @ [] @ join [TComma] (map tokens vs) @ [] @ [TRBracket])"
      by (intro lexes_append lexes_structural lexes_newline_indent lexes_join lexes_separator el)
    with False show ?thesis by (simp add: js_def)
  qed
next
  case (JObj ms)
  show ?case
  proof (cases "ms = []")
    case True
    have "lexes ([0x7B] @ [0x7D]) ([TLBrace] @ [TRBrace])"
      by (intro lexes_append lexes_structural)
    with True show ?thesis by (simp add: js_def)
  next
    case False
    have colon: "lexes (js '': '') [TColon]"
      using lexes_append [OF lexes_structural(5) lexes_space, of "0x20"]
      by (simp add: js_def is_json_space_def)
    have el: "lexes (case x of (k, v) \<Rightarrow> quote k @ js '': '' @ stringify_indented (n + 1) v)
                    (case x of (k, v) \<Rightarrow> [TString k, TColon] @ tokens v)"
      if "x \<in> set ms" for x
    proof -
      obtain k v where x: "x = (k, v)" by (cases x)
      with that JObj.prems have "plain v" by (auto simp: list_all_iff)
      with that x have "lexes (stringify_indented (n + 1) v) (tokens v)"
        by (intro JObj.IH [of x v]) auto
      then have "lexes (quote k @ js '': '' @ stringify_indented (n + 1) v)
                       ([TString k] @ [TColon] @ tokens v)"
        by (intro lexes_append lexes_quote colon)
      then show ?thesis by (simp add: x)
    qed
    have "lexes ([0x7B] @ ([0x0A] @ indent (n + 1))
                 @ join (js '','' @ [0x0A] @ indent (n + 1))
                     (map (\<lambda>(k, v). quote k @ js '': '' @ stringify_indented (n + 1) v) ms)
                 @ ([0x0A] @ indent n) @ [0x7D])
                ([TLBrace] @ [] @ join [TComma] (map (\<lambda>(k, v). [TString k, TColon] @ tokens v) ms)
                 @ [] @ [TRBrace])"
      by (intro lexes_append lexes_structural lexes_newline_indent lexes_join lexes_separator el)
    with False show ?thesis by (simp add: js_def)
  qed
qed

section \<open>Parsing the tokens of a value\<close>

lemma feed_Some: "feed nt (Some s) ts = run_tokens nt s ts"
  by (simp add: feed_def)

lemma run_tokens_Cons: "run_tokens nt s (t # ts) = feed nt (step nt s t) ts"
  by (simp add: feed_def)

lemma define_property_fresh:
  "k \<notin> fst ` set ms \<Longrightarrow> array_index k = None \<Longrightarrow> define_property ms k v = ms @ [(k, v)]"
  by (simp add: define_property_def)

lemma accepted_Value:
  "accepted nt v \<Longrightarrow> run_tokens nt (st, Value) (tokens v @ ts) = feed nt (deliver v st) ts"
  by (simp add: accepted_def)

lemma accepted_ValueOrEnd:
  "accepted nt v \<Longrightarrow> run_tokens nt (st, ValueOrEnd) (tokens v @ ts) = feed nt (deliver v st) ts"
  by (simp add: accepted_def)

lemma array_elements:
  assumes "\<And>y. y \<in> set vs \<Longrightarrow> accepted nt y"
  shows "run_tokens nt (FArr acc # st, After)
           (concat (map (\<lambda>y. TComma # tokens y) vs) @ TRBracket # ts)
         = feed nt (deliver (JArr (acc @ vs)) st) ts"
  using assms
proof (induction vs arbitrary: acc)
  case Nil
  show ?case by (simp add: feed_def)
next
  case (Cons y vs)
  have "run_tokens nt (FArr acc # st, After)
          (concat (map (\<lambda>y. TComma # tokens y) (y # vs)) @ TRBracket # ts)
        = run_tokens nt (FArr acc # st, Value)
            (tokens y @ concat (map (\<lambda>y. TComma # tokens y) vs) @ TRBracket # ts)"
    by simp
  also have "\<dots> = run_tokens nt (FArr (acc @ [y]) # st, After)
                    (concat (map (\<lambda>y. TComma # tokens y) vs) @ TRBracket # ts)"
    using Cons.prems [of y] by (simp add: accepted_Value feed_def)
  also have "\<dots> = feed nt (deliver (JArr ((acc @ [y]) @ vs)) st) ts"
    by (rule Cons.IH) (simp add: Cons.prems)
  finally show ?case by simp
qed

lemma object_members:
  assumes "\<And>k y. (k, y) \<in> set ms \<Longrightarrow> accepted nt y \<and> array_index k = None"
    and "distinct (map fst (acc @ ms))"
  shows "run_tokens nt (FObj acc # st, After)
           (concat (map (\<lambda>(k, y). TComma # TString k # TColon # tokens y) ms) @ TRBrace # ts)
         = feed nt (deliver (JObj (acc @ ms)) st) ts"
  using assms
proof (induction ms arbitrary: acc)
  case Nil
  show ?case by (simp add: feed_def)
next
  case (Cons m ms)
  obtain k y where m: "m = (k, y)" by (cases m)
  from Cons.prems(1) [of k y] m have y: "accepted nt y" and k: "array_index k = None"
    by simp_all
  from Cons.prems(2) m have fresh: "k \<notin> fst ` set acc"
    by auto
  have "run_tokens nt (FObj acc # st, After)
          (concat (map (\<lambda>(k, y). TComma # TString k # TColon # tokens y) (m # ms)) @ TRBrace # ts)
        = run_tokens nt (FKey acc k # st, Value)
            (tokens y @ concat (map (\<lambda>(k, y). TComma # TString k # TColon # tokens y) ms)
             @ TRBrace # ts)"
    by (simp add: m)
  also have "\<dots> = run_tokens nt (FObj (acc @ [(k, y)]) # st, After)
                    (concat (map (\<lambda>(k, y). TComma # TString k # TColon # tokens y) ms)
                     @ TRBrace # ts)"
    by (simp add: accepted_Value [OF y] feed_def define_property_fresh [OF fresh k])
  also have "\<dots> = feed nt (deliver (JObj ((acc @ [(k, y)]) @ ms)) st) ts"
  proof (rule Cons.IH)
    show "accepted nt y' \<and> array_index k' = None" if "(k', y') \<in> set ms" for k' y'
      using Cons.prems(1) [of k' y'] that by simp
    show "distinct (map fst ((acc @ [(k, y)]) @ ms))"
      using Cons.prems(2) by (simp add: m)
  qed
  finally show ?case by (simp add: m)
qed

lemma accepted_plain: "plain v \<Longrightarrow> accepted nt v"
proof (induction v)
  case JNull
  show ?case by (simp add: accepted_def feed_def)
next
  case (JBool b)
  show ?case by (simp add: accepted_def feed_def)
next
  case (JNum t)
  then show ?case by simp
next
  case (JStr s)
  show ?case by (simp add: accepted_def feed_def)
next
  case (JArr vs)
  have el: "accepted nt y" if "y \<in> set vs" for y
    using JArr that by (simp add: list_all_iff)
  show ?case
  proof (cases vs)
    case Nil
    then show ?thesis by (simp add: accepted_def feed_def)
  next
    case (Cons y vs')
    have rest: "run_tokens nt (FArr [y] # st, After)
                  (concat (map (\<lambda>y. TComma # tokens y) vs') @ TRBracket # ts)
                = feed nt (deliver (JArr (y # vs')) st) ts" for st ts
      using array_elements [of vs' nt "[y]" st ts] el by (simp add: Cons)
    have first: "run_tokens nt (FArr [] # st, ValueOrEnd)
                   (tokens y @ concat (map (\<lambda>y. TComma # tokens y) vs') @ TRBracket # ts)
                 = feed nt (deliver (JArr (y # vs')) st) ts" for st ts
      using el [of y] by (simp add: Cons accepted_ValueOrEnd feed_def rest)
    have tk: "tokens (JArr vs) @ ts
              = TLBracket # tokens y @ concat (map (\<lambda>y. TComma # tokens y) vs') @ TRBracket # ts"
      for ts
      by (simp add: Cons join_Cons comp_def)
    show ?thesis
      unfolding accepted_def tk by (simp add: first Cons)
  qed
next
  case (JObj ms)
  have el: "accepted nt y \<and> array_index k = None" if "(k, y) \<in> set ms" for k y
  proof -
    from that JObj.prems have "plain y" and "array_index k = None"
      by (auto simp: list_all_iff)
    with that JObj.IH [of "(k, y)" y] show ?thesis by auto
  qed
  from JObj.prems have dist: "distinct (map fst ms)" by simp
  show ?case
  proof (cases ms)
    case Nil
    then show ?thesis by (simp add: accepted_def feed_def)
  next
    case (Cons m ms')
    obtain k y where m: "m = (k, y)" by (cases m)
    from el [of k y] have y: "accepted nt y" and k: "array_index k = None"
      by (simp_all add: Cons m)
    have rest: "run_tokens nt (FObj [(k, y)] # st, After)
                  (concat (map (\<lambda>(k, y). TComma # TString k # TColon # tokens y) ms')
                   @ TRBrace # ts)
                = feed nt (deliver (JObj ((k, y) # ms')) st) ts" for st ts
    proof -
      have "run_tokens nt (FObj [(k, y)] # st, After)
              (concat (map (\<lambda>(k, y). TComma # TString k # TColon # tokens y) ms')
               @ TRBrace # ts)
            = feed nt (deliver (JObj ([(k, y)] @ ms')) st) ts"
      proof (rule object_members)
        show "accepted nt y' \<and> array_index k' = None" if "(k', y') \<in> set ms'" for k' y'
          using el [of k' y'] that by (simp add: Cons)
        show "distinct (map fst ([(k, y)] @ ms'))"
          using dist by (simp add: Cons m)
      qed
      then show ?thesis by simp
    qed
    have first: "run_tokens nt (FKey [] k # st, Value)
                   (tokens y @ concat (map (\<lambda>(k, y). TComma # TString k # TColon # tokens y) ms')
                    @ TRBrace # ts)
                 = feed nt (deliver (JObj ((k, y) # ms')) st) ts" for st ts
      by (simp add: accepted_Value [OF y] feed_def define_property_fresh k rest)
    have tk: "tokens (JObj ms) @ ts
              = TLBrace # TString k # TColon # tokens y
                @ concat (map (\<lambda>(k, y). TComma # TString k # TColon # tokens y) ms')
                @ TRBrace # ts"
      for ts
      by (simp add: Cons m join_Cons comp_def case_prod_unfold)
    show ?thesis
      unfolding accepted_def tk by (simp add: first Cons m)
  qed
qed

lemma json_parse_stringify_indented:
  assumes "plain v"
  shows "json_parse nt (stringify_indented n v) = Some v"
proof -
  from lexes_stringify_indented [OF assms, of n]
  have "lex (stringify_indented n v @ []) = prepend (tokens v) (lex [])"
    unfolding lexes_def by blast
  then have l: "lex (stringify_indented n v) = Some (tokens v)"
    by (simp add: prepend_def lex.simps)
  have "run_tokens nt ([], Value) (tokens v @ []) = feed nt (deliver v []) []"
    by (rule accepted_Value [OF accepted_plain [OF assms]])
  then have r: "run_tokens nt ([], Value) (tokens v) = Some ([], Done v)"
    by (simp add: feed_def)
  show ?thesis
    by (simp add: json_parse_def l r)
qed

section \<open>Printed values survive the file\<close>

lemma well_formed_Cons:
  "\<not> (is_high_surrogate c \<or> is_low_surrogate c) \<Longrightarrow> well_formed (c # s) = well_formed s"
  by (cases s) auto

lemma well_formed_append: "well_formed a \<Longrightarrow> well_formed b \<Longrightarrow> well_formed (a @ b)"
proof (induction a rule: well_formed.induct)
  case 1
  then show ?case by simp
next
  case (2 c)
  then show ?case by (simp add: well_formed_Cons)
next
  case (3 c d cs)
  show ?case
  proof (cases "is_high_surrogate c \<and> is_low_surrogate d")
    case True
    with 3 show ?thesis by simp
  next
    case False
    with 3 have c: "\<not> (is_high_surrogate c \<or> is_low_surrogate c)" and "well_formed (d # cs)"
      by auto
    with 3 False have "well_formed ((d # cs) @ b)" by blast
    with c show ?thesis by (simp add: well_formed_Cons del: well_formed.simps)
  qed
qed

lemma read_back_well_formed: "well_formed s \<Longrightarrow> read_back s = s"
  by (induction s rule: well_formed.induct) (auto split: if_splits)

lemma ascii_not_surrogate: "c < 0x80 \<Longrightarrow> \<not> (is_high_surrogate c \<or> is_low_surrogate c)"
  by (auto simp: is_high_surrogate_def is_low_surrogate_def word_le_nat_alt word_less_nat_alt)

lemma well_formed_ascii: "\<forall>c \<in> set s. c < 0x80 \<Longrightarrow> well_formed s"
  by (induction s) (simp_all add: well_formed_Cons ascii_not_surrogate del: well_formed.simps(3))

lemma hex_digit_ascii: "d < 16 \<Longrightarrow> hex_digit d < 0x80"
proof -
  assume "d < 16"
  then have "d = 0 \<or> d = 1 \<or> d = 2 \<or> d = 3 \<or> d = 4 \<or> d = 5 \<or> d = 6 \<or> d = 7 \<or> d = 8
           \<or> d = 9 \<or> d = 10 \<or> d = 11 \<or> d = 12 \<or> d = 13 \<or> d = 14 \<or> d = 15"
    by arith
  then show ?thesis
    by (elim disjE) (simp_all add: hex_digit_def)
qed

lemma well_formed_unicode_escape: "well_formed (unicode_escape c)"
proof -
  have "unat c < 2 ^ 16"
    using unsigned_less [of c, where ?'a = nat] by simp
  then have "unat c div 4096 < 16" by simp
  then show ?thesis
    by (intro well_formed_ascii) (simp add: unicode_escape_def hex_digit_ascii)
qed

lemma well_formed_quote_unit: "well_formed (quote_unit c)"
proof (cases "quote_unit c = unicode_escape c \<or> quote_unit c = [c]")
  case False
  then have "\<forall>x \<in> set (quote_unit c). x < 0x80"
    by (auto simp: quote_unit_def split: if_splits)
  then show ?thesis by (rule well_formed_ascii)
next
  case True
  then show ?thesis
  proof
    assume "quote_unit c = unicode_escape c"
    then show ?thesis by (simp add: well_formed_unicode_escape)
  next
    assume a: "quote_unit c = [c]"
    show ?thesis
    proof (cases "is_high_surrogate c \<or> is_low_surrogate c")
      case True
      then have "quote_unit c = unicode_escape c"
        using surrogate_plain [OF True] by (simp add: quote_unit_def ascii_not_surrogate)
           (auto simp: is_high_surrogate_def is_low_surrogate_def)
      then show ?thesis by (simp add: well_formed_unicode_escape)
    next
      case False
      with a show ?thesis by simp
    qed
  qed
qed

lemma well_formed_quote_body: "well_formed (quote_body s)"
proof (induction s rule: quote_body.induct)
  case 1
  show ?case by simp
next
  case (2 c)
  show ?case by (simp add: well_formed_quote_unit)
next
  case (3 c d cs)
  show ?case
  proof (cases "is_high_surrogate c \<and> is_low_surrogate d")
    case True
    with 3(1) show ?thesis by simp
  next
    case False
    then have qb: "quote_body (c # d # cs) = quote_unit c @ quote_body (d # cs)" by auto
    from 3(2) [OF False] show ?thesis
      unfolding qb by (intro well_formed_append well_formed_quote_unit)
  qed
qed

lemma well_formed_quote: "well_formed (quote s)"
  unfolding quote_def
  by (intro well_formed_append well_formed_quote_body well_formed_ascii) simp_all

lemma well_formed_indent: "well_formed (indent n)"
  by (rule well_formed_ascii) (simp add: indent_def)

lemma well_formed_newline_indent: "well_formed ([0x0A] @ indent n)"
  by (intro well_formed_append well_formed_indent well_formed_ascii) simp

lemma well_formed_separator: "well_formed (js '','' @ [0x0A] @ indent n)"
  by (intro well_formed_append well_formed_indent well_formed_ascii) (simp_all add: js_def)

lemma well_formed_concat:
  "(\<And>x. x \<in> set xs \<Longrightarrow> well_formed (f x)) \<Longrightarrow> well_formed (concat (map f xs))"
  by (induction xs) (simp_all add: well_formed_append)

lemma well_formed_join:
  assumes "well_formed sep" and "\<And>x. x \<in> set xs \<Longrightarrow> well_formed (f x)"
  shows "well_formed (join sep (map f xs))"
proof (cases xs)
  case Nil
  then show ?thesis by simp
next
  case (Cons x xs')
  have "well_formed (concat (map (\<lambda>y. sep @ f y) xs'))"
    by (rule well_formed_concat) (simp add: well_formed_append assms Cons)
  then have "well_formed (f x @ concat (map (\<lambda>y. sep @ f y) xs'))"
    by (intro well_formed_append assms(2)) (simp_all add: Cons)
  then show ?thesis
    by (simp add: Cons join_Cons comp_def)
qed

lemma well_formed_names:
  "well_formed (js ''null'')" "well_formed (js ''true'')" "well_formed (js ''false'')"
  "well_formed (js ''[]'')" "well_formed (js ''{}'')"
  by (rule well_formed_ascii, simp add: js_def)+

lemma well_formed_stringify_indented: "plain v \<Longrightarrow> well_formed (stringify_indented n v)"
proof (induction v arbitrary: n)
  case JNull
  show ?case by (simp add: well_formed_names)
next
  case (JBool b)
  show ?case by (simp add: well_formed_names)
next
  case (JNum t)
  then show ?case by simp
next
  case (JStr s)
  show ?case by (simp add: well_formed_quote)
next
  case (JArr vs)
  show ?case
  proof (cases "vs = []")
    case True
    then show ?thesis by (simp add: well_formed_names)
  next
    case False
    have el: "well_formed (stringify_indented (n + 1) x)" if "x \<in> set vs" for x
      using JArr that by (simp add: list_all_iff)
    have "well_formed ([0x5B] @ ([0x0A] @ indent (n + 1))
                 @ join (js '','' @ [0x0A] @ indent (n + 1)) (map (stringify_indented (n + 1)) vs)
                 @ ([0x0A] @ indent n) @ [0x5D])"
      by (intro well_formed_append well_formed_newline_indent well_formed_join
            well_formed_separator el well_formed_ascii) simp_all
    with False show ?thesis by (simp add: js_def)
  qed
next
  case (JObj ms)
  show ?case
  proof (cases "ms = []")
    case True
    then show ?thesis by (simp add: well_formed_names)
  next
    case False
    have el: "well_formed (case x of (k, v) \<Rightarrow> quote k @ js '': '' @ stringify_indented (n + 1) v)"
      if "x \<in> set ms" for x
    proof -
      obtain k v where x: "x = (k, v)" by (cases x)
      with that JObj.prems have "plain v" by (auto simp: list_all_iff)
      with that x have "well_formed (stringify_indented (n + 1) v)"
        by (intro JObj.IH [of x v]) auto
      moreover have "well_formed (js '': '')"
        by (rule well_formed_ascii) (simp add: js_def)
      ultimately have "well_formed (quote k @ js '': '' @ stringify_indented (n + 1) v)"
        by (intro well_formed_append well_formed_quote)
      then show ?thesis by (simp add: x)
    qed
    have "well_formed ([0x7B] @ ([0x0A] @ indent (n + 1))
                 @ join (js '','' @ [0x0A] @ indent (n + 1))
                     (map (\<lambda>(k, v). quote k @ js '': '' @ stringify_indented (n + 1) v) ms)
                 @ ([0x0A] @ indent n) @ [0x7D])"
      by (intro well_formed_append well_formed_newline_indent well_formed_join
            well_formed_separator el well_formed_ascii) simp_all
    with False show ?thesis by (simp add: js_def)
  qed
qed

lemma read_back_stringify_pretty: "plain v \<Longrightarrow> read_back (stringify_pretty v) = stringify_pretty v"
  by (simp add: stringify_pretty_def read_back_well_formed well_formed_stringify_indented)

lemma json_parse_stringify_pretty: "plain v \<Longrightarrow> json_parse nt (stringify_pretty v) = Some v"
  by (simp add: stringify_pretty_def json_parse_stringify_indented)

section \<open>The snapshot and the run\<close>

lemma array_index_letter: "\<not> is_digit c \<Longrightarrow> array_index (c # k) = None"
  by (simp add: array_index_def)

lemma plain_row_json: "plain (row_json r)"
  by (cases "sheepweekindex r")
     (simp_all add: row_json_def js_def array_index_letter is_digit_def)

lemma plain_metrics_json: "plain (metrics_json m)"
  by (simp add: metrics_json_def slot_json_def js_def array_index_letter is_digit_def
        plain_row_json split: option.splits)

lemma metrics_round_trip:
  "json_parse nt (read_back (stringify_pretty (metrics_json m))) = Some (metrics_json m)"
  by (simp add: read_back_stringify_pretty json_parse_stringify_pretty plain_metrics_json)

lemma truthy_metrics_json: "truthy (metrics_json m)"
  by (simp add: truthy_def metrics_json_def)

lemma stringify_metrics_updated_at:
  assumes "stringify (metrics_json m) = stringify (metrics_json m')"
  shows "updated_at m = updated_at m'"
proof -
  obtain X where x: "stringify (metrics_json m)
      = js ''{'' @ quote (js ''updated_at'') @ js '':'' @ [0x22] @ quote_body (updated_at m) @ 0x22 # X"
    by (simp add: metrics_json_def quote_def)
  obtain X' where x': "stringify (metrics_json m')
      = js ''{'' @ quote (js ''updated_at'') @ js '':'' @ [0x22] @ quote_body (updated_at m') @ 0x22 # X'"
    by (simp add: metrics_json_def quote_def)
  from assms have "quote_body (updated_at m) @ 0x22 # X = quote_body (updated_at m') @ 0x22 # X'"
    unfolding x x' by simp
  then have "lex_string (quote_body (updated_at m) @ 0x22 # X)
           = lex_string (quote_body (updated_at m') @ 0x22 # X')"
    by simp
  then show ?thesis
    by (simp add: lex_string_quote_body)
qed

lemma run_extracted:
  assumes "extracted e previousMetrics allText"
  shows "run e = (case parse_rows (lines_of allText) of
                    Inl err \<Rightarrow> abort True err
                  | Inr rows \<Rightarrow> finish e previousMetrics rows)"
  using assms by (simp add: extracted_def run_def browse_def)

lemma finish_unchanged:
  "rows \<noteq> [] \<Longrightarrow> unchanged previousMetrics (build_metrics (now e) rows) \<Longrightarrow>
   finish e previousMetrics rows =
     \<lparr> acquired = True, closed = True, console_error = row_count_warning rows, written = None,
       status = Completed \<rparr>"
  by (simp add: finish_def unchanged_def Let_def)

lemma finish_changed:
  "rows \<noteq> [] \<Longrightarrow> \<not> unchanged previousMetrics (build_metrics (now e) rows) \<Longrightarrow> write_ok e \<Longrightarrow>
   finish e previousMetrics rows =
     \<lparr> acquired = True, closed = True, console_error = row_count_warning rows,
       written = Some (stringify_pretty (metrics_json (build_metrics (now e) rows))),
       status = Completed \<rparr>"
  by (simp add: finish_def unchanged_def Let_def)

lemma finish_empty:
  "finish e previousMetrics [] =
     \<lparr> acquired = True, closed = True, console_error = [NoRowsFound], written = None,
       status = Exited 1 \<rparr>"
  by (simp add: finish_def)

lemma extracted_base_env: "extracted (base_env ls t) JNull (text_of_lines ls)"
  by (simp add: extracted_def base_env_def load_previous_def)

lemma not_unchanged_JNull: "\<not> unchanged JNull m"
  by (simp add: unchanged_def truthy_def)


lemma run_base_env:
  assumes "list_all clean_line ls" and "parse_rows ls = Inr rows" and "rows \<noteq> []"
  shows "run (base_env ls t) =
           \<lparr> acquired = True, closed = True, console_error = row_count_warning rows,
             written = Some (stringify_pretty (metrics_json (build_metrics t rows))),
             status = Completed \<rparr>"
proof -
  have "run (base_env ls t) = finish (base_env ls t) JNull rows"
    by (simp add: run_extracted [OF extracted_base_env] lines_of_text_of_lines assms)
  also have "\<dots> = \<lparr> acquired = True, closed = True, console_error = row_count_warning rows,
             written = Some (stringify_pretty (metrics_json (build_metrics (now (base_env ls t)) rows))),
             status = Completed \<rparr>"
    by (rule finish_changed) (simp_all add: assms not_unchanged_JNull base_env_def)
  finally show ?thesis by (simp add: base_env_def)
qed

lemma extracted_next_env:
  assumes "list_all clean_line ls" and "parse_rows ls = Inr rows" and "rows \<noteq> []"
  shows "extracted (next_env (base_env ls t) t') (metrics_json (build_metrics t rows))
           (text_of_lines ls)"
proof -
  have "file_after (base_env ls t)
          = Content (read_back (stringify_pretty (metrics_json (build_metrics t rows))))"
    by (simp add: file_after_def run_base_env [OF assms])
  then show ?thesis
    by (simp add: extracted_def next_env_def load_previous_def metrics_round_trip)
       (simp add: base_env_def)
qed

lemma run_next_env_same:
  assumes "list_all clean_line ls" and "parse_rows ls = Inr rows" and "rows \<noteq> []"
  shows "run (next_env (base_env ls t) t) =
           \<lparr> acquired = True, closed = True, console_error = row_count_warning rows, written = None,
             status = Completed \<rparr>"
proof -
  let ?e = "next_env (base_env ls t) t"
  have n: "now ?e = t" by (simp add: next_env_def)
  have "run ?e = finish ?e (metrics_json (build_metrics t rows)) rows"
    by (simp add: run_extracted [OF extracted_next_env [OF assms]] lines_of_text_of_lines assms)
  also have "\<dots> = \<lparr> acquired = True, closed = True, console_error = row_count_warning rows, written = None,
             status = Completed \<rparr>"
    by (rule finish_unchanged) (simp_all add: assms n unchanged_def truthy_metrics_json)
  finally show ?thesis .
qed

lemma run_next_env_later:
  assumes "list_all clean_line ls" and "parse_rows ls = Inr rows" and "rows \<noteq> []"
    and "t' \<noteq> t"
  shows "run (next_env (base_env ls t) t') =
           \<lparr> acquired = True, closed = True, console_error = row_count_warning rows,
             written = Some (stringify_pretty (metrics_json (build_metrics t' rows))),
             status = Completed \<rparr>"
proof -
  let ?e = "next_env (base_env ls t) t'"
  have n: "now ?e = t'" and w: "write_ok ?e" by (simp_all add: next_env_def base_env_def)
  have u: "\<not> unchanged (metrics_json (build_metrics t rows)) (build_metrics t' rows)"
  proof
    assume "unchanged (metrics_json (build_metrics t rows)) (build_metrics t' rows)"
    then have "updated_at (build_metrics t rows) = updated_at (build_metrics t' rows)"
      by (intro stringify_metrics_updated_at) (simp add: unchanged_def)
    with assms(4) show False by (simp add: build_metrics_def)
  qed
  have "run ?e = finish ?e (metrics_json (build_metrics t rows)) rows"
    by (simp add: run_extracted [OF extracted_next_env [OF assms(1-3)]] lines_of_text_of_lines assms)
  also have "\<dots> = \<lparr> acquired = True, closed = True, console_error = row_count_warning rows,
             written = Some (stringify_pretty (metrics_json (build_metrics (now ?e) rows))),
             status = Completed \<rparr>"
    by (rule finish_changed) (simp_all add: assms n u w)
  finally show ?thesis by (simp add: n)
qed


lemma clean_no_marker_lines: "list_all clean_line no_marker_lines"
  by (simp add: no_marker_lines_def clean_line_def js_def is_white_def)

lemma no_marker_count: "selectRowCount no_marker_lines = 0"
  by (simp add: selectRowCount_def no_marker_lines_def js_def)

lemma stamps_differ: "js ''2024-03-15T00:00:00.000Z'' \<noteq> js ''2024-03-08T00:00:00.000Z''"
  by (simp add: js_def)

lemma broken_file_unparsable: "json_parse nt broken_file = None"
  by (simp add: json_parse_def broken_file_def js_def lex.simps is_json_space_def is_digit_def
        cons_tok_def)

lemma row_json_inject:
  assumes "sheepweekindex r \<noteq> None" and "sheepweekindex r' \<noteq> None" and "row_json r = row_json r'"
  shows "r = r'"
proof -
  from assms(1,2) obtain s s' where s: "sheepweekindex r = Some s" "sheepweekindex r' = Some s'"
    by auto
  from assms(3) show ?thesis
    by (cases r; cases r') (use s in \<open>simp add: row_json_def\<close>)
qed

lemma slot_json_inject:
  assumes "complete_slot s" and "complete_slot s'" and "slot_json s = slot_json s'"
  shows "s = s'"
proof (cases s; cases s')
  fix r r' assume "s = Some r" "s' = Some r'"
  with assms show ?thesis
    by (auto simp: complete_slot_def slot_json_def intro: row_json_inject)
qed (use assms in \<open>auto simp: slot_json_def row_json_def\<close>)

lemma metrics_json_inject:
  assumes "complete m" and "complete m'" and "metrics_json m = metrics_json m'"
  shows "m = m'"
proof -
  from assms(3) have "updated_at m = updated_at m'"
    and "slot_json (this_week m) = slot_json (this_week m')"
    and "slot_json (last_week m) = slot_json (last_week m')"
    and "slot_json (two_weeks_ago m) = slot_json (two_weeks_ago m')"
    and "slot_json (three_weeks_ago m) = slot_json (three_weeks_ago m')"
    by (simp_all add: metrics_json_def)
  with assms(1,2) show ?thesis
    by (cases m; cases m') (auto simp: complete_def dest: slot_json_inject)
qed

lemma complete_build_metrics:
  "\<forall>r \<in> set rows. sheepweekindex r \<noteq> None \<Longrightarrow> complete (build_metrics t rows)"
  by (simp add: complete_def complete_slot_def build_metrics_def at_def)

section \<open>Claims about the run\<close>

text \<open>
  C4. When the run gets as far as the text of the frame and the text has no marker line,
  the script reports on \<open>console.error\<close> that no rows were found and calls
  \<open>process.exit(1)\<close>: the exit code is 1 and no file is written. When
  the parser gives at least one row, and the snapshot is unchanged or the write succeeds,
  the async function returns and the exit code is 0; on the unchanged path nothing is
  written.
\<close>

theorem zero_markers_fatal:
  assumes "extracted e previousMetrics allText"
  shows "(selectRowCount (lines_of allText) = 0 \<longrightarrow>
            console_error (run e) = [NoRowsFound]
            \<and> status (run e) = Exited 1 \<and> exit_code (status (run e)) = Some 1
            \<and> written (run e) = None)
       \<and> (parse_rows (lines_of allText) = Inr rows \<and> rows \<noteq> []
              \<and> (unchanged previousMetrics (build_metrics (now e) rows) \<or> write_ok e) \<longrightarrow>
            status (run e) = Completed \<and> exit_code (status (run e)) = Some 0
            \<and> (unchanged previousMetrics (build_metrics (now e) rows) \<longrightarrow> written (run e) = None))"
proof (intro conjI impI)
  assume z: "selectRowCount (lines_of allText) = 0"
  then have "marker_positions (lines_of allText) = []"
    by (simp add: length_marker_positions [symmetric])
  then have "parse_rows (lines_of allText) = Inr []"
    by (simp add: parse_rows_closed)
  then have r: "run e = \<lparr> acquired = True, closed = True, console_error = [NoRowsFound],
                         written = None, status = Exited 1 \<rparr>"
    by (simp add: run_extracted [OF assms] finish_empty)
  show "console_error (run e) = [NoRowsFound]" "status (run e) = Exited 1"
    "exit_code (status (run e)) = Some 1" "written (run e) = None"
    by (simp_all add: r exit_code_def)
next
  assume a: "parse_rows (lines_of allText) = Inr rows \<and> rows \<noteq> []
              \<and> (unchanged previousMetrics (build_metrics (now e) rows) \<or> write_ok e)"
  then have r: "run e = finish e previousMetrics rows"
    by (simp add: run_extracted [OF assms])
  show "status (run e) = Completed"
    using a by (cases "unchanged previousMetrics (build_metrics (now e) rows)")
               (simp_all add: r finish_unchanged finish_changed)
  then show "exit_code (status (run e)) = Some 0"
    by (simp add: exit_code_def)
  show "written (run e) = None" if "unchanged previousMetrics (build_metrics (now e) rows)"
    using a that by (simp add: r finish_unchanged)
qed

theorem zero_markers_fatal_witness:
  "console_error (run (base_env no_marker_lines (js ''2024-03-08T00:00:00.000Z''))) = [NoRowsFound]
   \<and> status (run (base_env no_marker_lines (js ''2024-03-08T00:00:00.000Z''))) = Exited 1
   \<and> exit_code (status (run (base_env no_marker_lines (js ''2024-03-08T00:00:00.000Z'')))) = Some 1
   \<and> written (run (base_env no_marker_lines (js ''2024-03-08T00:00:00.000Z''))) = None
   \<and> exit_code (status (run (base_env four_block_lines (js ''2024-03-08T00:00:00.000Z'')))) = Some 0
   \<and> exit_code (status (run (next_env (base_env four_block_lines (js ''2024-03-08T00:00:00.000Z''))
                                  (js ''2024-03-08T00:00:00.000Z'')))) = Some 0
   \<and> written (run (next_env (base_env four_block_lines (js ''2024-03-08T00:00:00.000Z''))
                      (js ''2024-03-08T00:00:00.000Z''))) = None"
proof -
  let ?t = "js ''2024-03-08T00:00:00.000Z''"
  let ?rows = "[week_row (js ''W2024-10''), week_row (js ''W2024-09''),
                week_row (js ''W2024-08''), week_row (js ''W2024-07'')]"
  have z: "selectRowCount (lines_of (text_of_lines no_marker_lines)) = 0"
    by (simp add: lines_of_text_of_lines clean_no_marker_lines no_marker_count)
  have p: "parse_rows (lines_of (text_of_lines four_block_lines)) = Inr ?rows"
    by (simp add: lines_of_four_blocks four_block_rows)
  have w: "write_ok (base_env four_block_lines ?t)"
    by (simp add: base_env_def)
  have u: "unchanged (metrics_json (build_metrics ?t ?rows))
             (build_metrics (now (next_env (base_env four_block_lines ?t) ?t)) ?rows)"
    by (simp add: unchanged_def truthy_metrics_json next_env_def)
  have a: "console_error (run (base_env no_marker_lines ?t)) = [NoRowsFound]
         \<and> status (run (base_env no_marker_lines ?t)) = Exited 1
         \<and> exit_code (status (run (base_env no_marker_lines ?t))) = Some 1
         \<and> written (run (base_env no_marker_lines ?t)) = None"
    using zero_markers_fatal [OF extracted_base_env [of no_marker_lines ?t], THEN conjunct1] z
    by blast
  have b: "exit_code (status (run (base_env four_block_lines ?t))) = Some 0"
    using zero_markers_fatal [OF extracted_base_env [of four_block_lines ?t], of ?rows,
            THEN conjunct2] p w
    by blast
  have c: "exit_code (status (run (next_env (base_env four_block_lines ?t) ?t))) = Some 0
         \<and> written (run (next_env (base_env four_block_lines ?t) ?t)) = None"
    using zero_markers_fatal [OF extracted_next_env [OF clean_four_blocks four_block_rows, of ?t ?t],
            of ?rows, THEN conjunct2] p u
    by blast
  from a b c show ?thesis by blast
qed

text \<open>
  C6. The claim asks for the browser to be closed on every exit path. The script closes
  it where it ends on its own (no rows, unchanged snapshot, snapshot written), as the last
  conjunct shows for the run without rows; but when \<open>page.goto\<close> or
  \<open>page.waitForSelector\<close> times out, the rejection leaves the async function and
  \<open>browser.close()\<close> is never called: the browser was acquired and is not closed.
\<close>

theorem navigation_timeout_leaves_browser_open:
  "acquired (run ((base_env four_block_lines (js ''2024-03-08T00:00:00.000Z'')) \<lparr> goto_ok := False \<rparr>))
   \<and> \<not> closed (run ((base_env four_block_lines (js ''2024-03-08T00:00:00.000Z''))
                       \<lparr> goto_ok := False \<rparr>))
   \<and> status (run ((base_env four_block_lines (js ''2024-03-08T00:00:00.000Z''))
                     \<lparr> goto_ok := False \<rparr>)) = Rejected NavigationError
   \<and> acquired (run ((base_env four_block_lines (js ''2024-03-08T00:00:00.000Z''))
                      \<lparr> selector_found := False \<rparr>))
   \<and> \<not> closed (run ((base_env four_block_lines (js ''2024-03-08T00:00:00.000Z''))
                       \<lparr> selector_found := False \<rparr>))
   \<and> status (run ((base_env four_block_lines (js ''2024-03-08T00:00:00.000Z''))
                     \<lparr> selector_found := False \<rparr>)) = Rejected TimeoutError
   \<and> closed (run (base_env no_marker_lines (js ''2024-03-08T00:00:00.000Z'')))"
proof -
  have z: "run (base_env no_marker_lines (js ''2024-03-08T00:00:00.000Z''))
           = finish (base_env no_marker_lines (js ''2024-03-08T00:00:00.000Z'')) JNull []"
    using no_marker_count
    by (simp add: run_extracted [OF extracted_base_env] lines_of_text_of_lines
          clean_no_marker_lines parse_rows_closed length_marker_positions [symmetric])
  show ?thesis
    by (simp add: z finish_empty) (simp add: run_def browse_def base_env_def load_previous_def abort_def)
qed



text \<open>
  C8. When the output file is absent, the loader gives \<open>null\<close> and no error, and the run
  goes on to the browser with it. When the file is there and its text is not JSON, the run
  ends with the SyntaxError of \<open>JSON.parse\<close>, before the browser is launched and with
  nothing written.
\<close>

theorem loader_behaviour:
  "(outputFile e = Absent \<longrightarrow>
      load_previous (number_text e) (outputFile e) = Inr JNull \<and> run e = browse e JNull)
   \<and> (outputFile e = Content text \<and> json_parse (number_text e) text = None \<longrightarrow>
      load_previous (number_text e) (outputFile e) = Inl SyntaxError
      \<and> status (run e) = Rejected SyntaxError \<and> \<not> acquired (run e) \<and> written (run e) = None)"
proof (intro conjI impI)
  assume "outputFile e = Absent"
  then show l: "load_previous (number_text e) (outputFile e) = Inr JNull"
    by (simp add: load_previous_def)
  show "run e = browse e JNull"
    unfolding run_def l by simp
next
  assume "outputFile e = Content text \<and> json_parse (number_text e) text = None"
  then show l: "load_previous (number_text e) (outputFile e) = Inl SyntaxError"
    by (simp add: load_previous_def)
  have r: "run e = abort False SyntaxError"
    unfolding run_def l by simp
  show "status (run e) = Rejected SyntaxError" "\<not> acquired (run e)" "written (run e) = None"
    unfolding r by (simp_all add: abort_def)
qed

theorem loader_behaviour_witness:
  "load_previous (\<lambda>n. n) Absent = Inr JNull
   \<and> written (run (base_env four_block_lines (js ''2024-03-08T00:00:00.000Z''))) =
       Some (stringify_pretty (metrics_json (build_metrics (js ''2024-03-08T00:00:00.000Z'')
         [week_row (js ''W2024-10''), week_row (js ''W2024-09''),
          week_row (js ''W2024-08''), week_row (js ''W2024-07'')])))
   \<and> status (run ((base_env four_block_lines (js ''2024-03-08T00:00:00.000Z''))
                     \<lparr> outputFile := Content broken_file \<rparr>)) = Rejected SyntaxError
   \<and> \<not> acquired (run ((base_env four_block_lines (js ''2024-03-08T00:00:00.000Z''))
                        \<lparr> outputFile := Content broken_file \<rparr>))
   \<and> written (run ((base_env four_block_lines (js ''2024-03-08T00:00:00.000Z''))
                      \<lparr> outputFile := Content broken_file \<rparr>)) = None"
proof -
  let ?e = "base_env four_block_lines (js ''2024-03-08T00:00:00.000Z'')"
  have a: "outputFile ?e = Absent" and n: "number_text ?e = (\<lambda>n. n)"
    by (simp_all add: base_env_def)
  have b: "outputFile (?e \<lparr> outputFile := Content broken_file \<rparr>) = Content broken_file
           \<and> json_parse (number_text (?e \<lparr> outputFile := Content broken_file \<rparr>)) broken_file = None"
    by (simp add: broken_file_unparsable)
  have w: "written (run ?e) =
       Some (stringify_pretty (metrics_json (build_metrics (js ''2024-03-08T00:00:00.000Z'')
         [week_row (js ''W2024-10''), week_row (js ''W2024-09''),
          week_row (js ''W2024-08''), week_row (js ''W2024-07'')])))"
    by (simp add: run_base_env [OF clean_four_blocks four_block_rows])
  from loader_behaviour [of ?e, THEN conjunct1] a n
  have c: "load_previous (\<lambda>n. n) Absent = Inr JNull" by simp
  from loader_behaviour [of "?e \<lparr> outputFile := Content broken_file \<rparr>" broken_file, THEN conjunct2] b
  have d: "status (run (?e \<lparr> outputFile := Content broken_file \<rparr>)) = Rejected SyntaxError
         \<and> \<not> acquired (run (?e \<lparr> outputFile := Content broken_file \<rparr>))
         \<and> written (run (?e \<lparr> outputFile := Content broken_file \<rparr>)) = None"
    by blast
  from c w d show ?thesis by blast
qed

section \<open>Claims about persistence\<close>

text \<open>
  C1. The claim asks that a second run on a text with the same field values writes
  nothing. The comparison of the script takes in \<open>updated_at\<close>, which is the time of the
  run: the first run, with no output file, writes its snapshot; the second run, a week
  later on the same text and with the file of the first run, finds the serializations
  different and writes again.
\<close>

theorem second_run_writes_again:
  "written (run (base_env four_block_lines (js ''2024-03-08T00:00:00.000Z''))) =
     Some (stringify_pretty (metrics_json (build_metrics (js ''2024-03-08T00:00:00.000Z'')
       [week_row (js ''W2024-10''), week_row (js ''W2024-09''),
        week_row (js ''W2024-08''), week_row (js ''W2024-07'')])))
   \<and> written (run (next_env (base_env four_block_lines (js ''2024-03-08T00:00:00.000Z''))
                      (js ''2024-03-15T00:00:00.000Z''))) =
     Some (stringify_pretty (metrics_json (build_metrics (js ''2024-03-15T00:00:00.000Z'')
       [week_row (js ''W2024-10''), week_row (js ''W2024-09''),
        week_row (js ''W2024-08''), week_row (js ''W2024-07'')])))"
  by (simp add: run_base_env [OF clean_four_blocks four_block_rows]
        run_next_env_later [OF clean_four_blocks four_block_rows _ stamps_differ])

text \<open>
  C9. For every snapshot that a run writes: \<open>writeFileSync\<close> gets the snapshot printed
  with two spaces of indentation, and loading the output file that the run leaves, as the
  lines 23 and 24 of a later run do, gives the JSON value of the snapshot, \<open>updated_at\<close>
  included. Every property of the snapshot is defined, so this value leaves nothing out,
  and the snapshot is the only complete one with this value.
\<close>

theorem snapshot_round_trip:
  assumes "extracted e previousMetrics allText"
    and "parse_rows (lines_of allText) = Inr rows"
    and "rows \<noteq> []"
    and "\<not> unchanged previousMetrics (build_metrics (now e) rows)"
    and "write_ok e"
  shows "written (run e) = Some (stringify_pretty (metrics_json (build_metrics (now e) rows)))
       \<and> file_after e
           = Content (read_back (stringify_pretty (metrics_json (build_metrics (now e) rows))))
       \<and> load_previous nt (file_after e) = Inr (metrics_json (build_metrics (now e) rows))
       \<and> complete (build_metrics (now e) rows)
       \<and> (\<forall>m. complete m \<and> metrics_json m = metrics_json (build_metrics (now e) rows)
              \<longrightarrow> m = build_metrics (now e) rows)"
proof (intro conjI allI impI)
  let ?m = "build_metrics (now e) rows"
  have "run e = finish e previousMetrics rows"
    by (simp add: run_extracted [OF assms(1)] assms(2))
  then show w: "written (run e) = Some (stringify_pretty (metrics_json ?m))"
    by (simp add: finish_changed [OF assms(3) assms(4) assms(5)])
  then show f: "file_after e = Content (read_back (stringify_pretty (metrics_json ?m)))"
    by (simp add: file_after_def)
  show "load_previous nt (file_after e) = Inr (metrics_json ?m)"
    unfolding f by (simp add: load_previous_def metrics_round_trip)
  have "\<forall>r \<in> set rows. sheepweekindex r \<noteq> None"
    unfolding parse_rows_Inr(1) [OF assms(2)] by (auto simp: row_of_block_def)
  then show c: "complete ?m"
    by (rule complete_build_metrics)
  fix m assume "complete m \<and> metrics_json m = metrics_json ?m"
  with c show "m = ?m"
    by (intro metrics_json_inject) simp_all
qed

theorem snapshot_round_trip_witness:
  "written (run (base_env four_block_lines (js ''2024-03-08T00:00:00.000Z''))) =
     Some (stringify_pretty (metrics_json (build_metrics (js ''2024-03-08T00:00:00.000Z'')
       [week_row (js ''W2024-10''), week_row (js ''W2024-09''),
        week_row (js ''W2024-08''), week_row (js ''W2024-07'')])))
   \<and> load_previous (\<lambda>n. n) (file_after (base_env four_block_lines (js ''2024-03-08T00:00:00.000Z'')))
       = Inr (metrics_json (build_metrics (js ''2024-03-08T00:00:00.000Z'')
           [week_row (js ''W2024-10''), week_row (js ''W2024-09''),
            week_row (js ''W2024-08''), week_row (js ''W2024-07'')]))
   \<and> complete (build_metrics (js ''2024-03-08T00:00:00.000Z'')
        [week_row (js ''W2024-10''), week_row (js ''W2024-09''),
         week_row (js ''W2024-08''), week_row (js ''W2024-07'')])"
proof -
  let ?t = "js ''2024-03-08T00:00:00.000Z''"
  let ?e = "base_env four_block_lines ?t"
  let ?rows = "[week_row (js ''W2024-10''), week_row (js ''W2024-09''),
                week_row (js ''W2024-08''), week_row (js ''W2024-07'')]"
  have p: "parse_rows (lines_of (text_of_lines four_block_lines)) = Inr ?rows"
    by (simp add: lines_of_four_blocks four_block_rows)
  have ne: "?rows \<noteq> []" by simp
  have n: "now ?e = ?t" and w: "write_ok ?e"
    by (simp_all add: base_env_def)
  have u: "\<not> unchanged JNull (build_metrics (now ?e) ?rows)"
    by (rule not_unchanged_JNull)
  from snapshot_round_trip [OF extracted_base_env [of four_block_lines ?t] p ne u w, of "\<lambda>n. n"]
  show ?thesis
    unfolding n by blast
qed

end
